theory Spec2Isabelle
  imports Main "HOL-Library.Multiset"
begin

section \<open>Exceptions (taskflow/exceptions.py)\<close>

text \<open>
  The exception classes of \<^verbatim>\<open>taskflow/exceptions.py\<close>, one constructor each; the
  message strings are not modelled. \<open>ValueError\<close> is Python's built-in, raised by
  \<^verbatim>\<open>list.remove\<close>; \<open>Exception\<close> stands for an arbitrary error raised by a task's
  unit of work, with its message.
\<close>

datatype exn =
    NotFound
  | AlreadyExists
  | ClosedException
  | InvalidStateException
  | UnclaimableJobException
  | JobNotFound
  | ValueError
  | Exception string

text \<open>
  A method of a mutable object: it returns a value or raises, and leaves the object in
  some state either way.
\<close>

type_synonym ('a, 's) result = "(exn + 'a) \<times> 's"

section \<open>States\<close>

text \<open>
  Modelled from the spec: the module \<^verbatim>\<open>taskflow/states.py\<close> is not among the sources.
  The spec names five states of a flow and the two terminal states success and failure
  of a job. A state is a string, so that a job may be in any other state as well.
\<close>

type_synonym state = string

definition PENDING :: state where "PENDING = ''PENDING''"
definition RUNNING :: state where "RUNNING = ''RUNNING''"
definition REVERTING :: state where "REVERTING = ''REVERTING''"
definition SUCCESS :: state where "SUCCESS = ''SUCCESS''"
definition FAILURE :: state where "FAILURE = ''FAILURE''"

section \<open>The memory backend (taskflow/backends/memory.py)\<close>

subsection \<open>check_not_closed\<close>

text \<open>
  The decorator: \<open>closed\<close> reads the \<^verbatim>\<open>_closed\<close> attribute of the object, \<open>meth\<close> is
  the decorated method with its arguments already applied.
\<close>

definition check_not_closed :: "('s \<Rightarrow> bool) \<Rightarrow> ('s \<Rightarrow> ('a, 's) result) \<Rightarrow> 's \<Rightarrow> ('a, 's) result" where
  "check_not_closed closed meth self =
     (if closed self then (Inl ClosedException, self) else meth self)"

subsection \<open>Jobs and the claimer\<close>

text \<open>
  Modelled from the spec: the class \<^verbatim>\<open>taskflow.job.Job\<close> is not among the sources. The
  backend reads a job's \<^verbatim>\<open>state\<close> and writes its \<^verbatim>\<open>owner\<close> and \<^verbatim>\<open>posted_on\<close>.
  \<open>job_id\<close> is the identity of the object: the backend compares jobs with \<^verbatim>\<open>==\<close>,
  and the containers below hold the identity of a job, not a copy of it.
\<close>

record job =
  job_id :: nat
  job_state :: state
  job_owner :: "string option"
  job_posted_on :: "nat list"

definition claim :: "job \<Rightarrow> string \<Rightarrow> job" where
  "claim job owner = job\<lparr>job_owner := Some owner\<rparr>"

definition unclaim :: "job \<Rightarrow> string \<Rightarrow> job" where
  "unclaim job owner = job\<lparr>job_owner := None\<rparr>"

subsection \<open>MemoryFlowDetail\<close>

text \<open>
  Modelled from the spec: the class \<^verbatim>\<open>logbook.TaskDetail\<close> is not among the sources; a
  task detail is built from a name and optional metadata.
\<close>

record 'm TaskDetail =
  td_name :: string
  td_metadata :: "'m option"

text \<open>
  The flow detail has no \<^verbatim>\<open>_closed\<close> attribute and none of its methods is decorated.
  The back reference to the book is not modelled.
\<close>

record 'm MemoryFlowDetail =
  fd_name :: string
  fd_tasks :: "'m TaskDetail list"

definition MemoryFlowDetail_init :: "string \<Rightarrow> 'm MemoryFlowDetail" where
  "MemoryFlowDetail_init name = \<lparr>fd_name = name, fd_tasks = []\<rparr>"

definition MemoryFlowDetail_iter :: "'m MemoryFlowDetail \<Rightarrow> 'm TaskDetail list" where
  "MemoryFlowDetail_iter self = fd_tasks self"

fun task_name_in :: "'m TaskDetail list \<Rightarrow> string \<Rightarrow> bool" where
  "task_name_in [] task_name = False"
| "task_name_in (t # ts) task_name =
     (if td_name t = task_name then True else task_name_in ts task_name)"

definition MemoryFlowDetail_contains :: "'m MemoryFlowDetail \<Rightarrow> string \<Rightarrow> bool" where
  "MemoryFlowDetail_contains self task_name =
     task_name_in (MemoryFlowDetail_iter self) task_name"

definition MemoryFlowDetail_getitem :: "'m MemoryFlowDetail \<Rightarrow> string \<Rightarrow> 'm TaskDetail list" where
  "MemoryFlowDetail_getitem self task_name =
     [t \<leftarrow> MemoryFlowDetail_iter self. td_name t = task_name]"

definition MemoryFlowDetail_len :: "'m MemoryFlowDetail \<Rightarrow> nat" where
  "MemoryFlowDetail_len self = length (fd_tasks self)"

definition MemoryFlowDetail_add_task ::
  "'m MemoryFlowDetail \<Rightarrow> string \<Rightarrow> 'm option \<Rightarrow> 'm TaskDetail \<times> 'm MemoryFlowDetail" where
  "MemoryFlowDetail_add_task self task_name metadata =
     (let task_details = \<lparr>td_name = task_name, td_metadata = metadata\<rparr>
      in (task_details, self\<lparr>fd_tasks := fd_tasks self @ [task_details]\<rparr>))"

definition MemoryFlowDetail_delitem :: "'m MemoryFlowDetail \<Rightarrow> string \<Rightarrow> 'm MemoryFlowDetail" where
  "MemoryFlowDetail_delitem self task_name =
     self\<lparr>fd_tasks := [t \<leftarrow> MemoryFlowDetail_iter self. td_name t \<noteq> task_name]\<rparr>"

subsection \<open>MemoryLogBook\<close>

record 'm MemoryLogBook =
  flows :: "'m MemoryFlowDetail list"
  flow_names :: "string set"
  lb_closed :: bool

definition MemoryLogBook_init :: "'m MemoryLogBook" where
  "MemoryLogBook_init = \<lparr>flows = [], flow_names = {}, lb_closed = False\<rparr>"

definition MemoryLogBook_close :: "'m MemoryLogBook \<Rightarrow> 'm MemoryLogBook" where
  "MemoryLogBook_close self = self\<lparr>lb_closed := True\<rparr>"

definition MemoryLogBook_add_flow ::
  "'m MemoryLogBook \<Rightarrow> string \<Rightarrow> ('m MemoryFlowDetail, 'm MemoryLogBook) result" where
  "MemoryLogBook_add_flow self flow_name =
     check_not_closed lb_closed (\<lambda>self.
       if flow_name \<in> flow_names self then (Inl AlreadyExists, self)
       else
         (let f = MemoryFlowDetail_init flow_name
          in (Inr f, self\<lparr>flows := flows self @ [f],
                           flow_names := insert flow_name (flow_names self)\<rparr>))) self"

text \<open>
  The loop of \<^verbatim>\<open>__getitem__\<close>: the first flow detail of that name, and Python's
  \<^verbatim>\<open>None\<close> when the loop ends without returning.
\<close>

fun first_flow_named :: "'m MemoryFlowDetail list \<Rightarrow> string \<Rightarrow> 'm MemoryFlowDetail option" where
  "first_flow_named [] flow_name = None"
| "first_flow_named (w # ws) flow_name =
     (if fd_name w = flow_name then Some w else first_flow_named ws flow_name)"

definition MemoryLogBook_getitem ::
  "'m MemoryLogBook \<Rightarrow> string \<Rightarrow> ('m MemoryFlowDetail option, 'm MemoryLogBook) result" where
  "MemoryLogBook_getitem self flow_name =
     check_not_closed lb_closed (\<lambda>self.
       if flow_name \<notin> flow_names self then (Inl NotFound, self)
       else (Inr (first_flow_named (flows self) flow_name), self)) self"

text \<open>
  \<^verbatim>\<open>__iter__\<close> is a decorated generator function: the check runs when it is called,
  and the generator then yields the flow details in order.
\<close>

definition MemoryLogBook_iter ::
  "'m MemoryLogBook \<Rightarrow> ('m MemoryFlowDetail list, 'm MemoryLogBook) result" where
  "MemoryLogBook_iter self =
     check_not_closed lb_closed (\<lambda>self. (Inr (flows self), self)) self"

definition MemoryLogBook_contains :: "'m MemoryLogBook \<Rightarrow> string \<Rightarrow> (bool, 'm MemoryLogBook) result" where
  "MemoryLogBook_contains self flow_name =
     check_not_closed lb_closed (\<lambda>self.
       if flow_name \<notin> flow_names self then (Inr False, self) else (Inr True, self)) self"

text \<open>
  \<^verbatim>\<open>__delitem__\<close> is not decorated; it looks the flow detail up with \<^verbatim>\<open>self[flow_name]\<close>,
  which is. \<^verbatim>\<open>list.remove\<close> removes the first equal element and raises \<open>ValueError\<close>
  when there is none, here after the name has left the set of names.
\<close>

definition MemoryLogBook_delitem :: "'m MemoryLogBook \<Rightarrow> string \<Rightarrow> (unit, 'm MemoryLogBook) result" where
  "MemoryLogBook_delitem self flow_name =
     (case MemoryLogBook_getitem self flow_name of
        (Inl e, self') \<Rightarrow> (Inl e, self')
      | (Inr w, self') \<Rightarrow>
          (let self'' = self'\<lparr>flow_names := flow_names self' - {flow_name}\<rparr>
           in case w of
                None \<Rightarrow> (Inl ValueError, self'')
              | Some w' \<Rightarrow>
                  if w' \<in> set (flows self'')
                  then (Inr (), self''\<lparr>flows := remove1 w' (flows self'')\<rparr>)
                  else (Inl ValueError, self'')))"

text \<open>\<^verbatim>\<open>__len__\<close> is not decorated.\<close>

definition MemoryLogBook_len :: "'m MemoryLogBook \<Rightarrow> (nat, 'm MemoryLogBook) result" where
  "MemoryLogBook_len self = (Inr (length (flows self)), self)"

subsection \<open>MemoryCatalog\<close>

text \<open>
  The catalog pairs the identity of a job with its log book. The lock is not modelled:
  each method runs as one step.
\<close>

record 'm MemoryCatalog =
  catalogs :: "(nat \<times> 'm MemoryLogBook) list"
  c_closed :: bool

definition MemoryCatalog_init :: "'m MemoryCatalog" where
  "MemoryCatalog_init = \<lparr>catalogs = [], c_closed = False\<rparr>"

text \<open>\<^verbatim>\<open>__len__\<close> and \<^verbatim>\<open>__contains__\<close> are not decorated.\<close>

definition MemoryCatalog_len :: "'m MemoryCatalog \<Rightarrow> (nat, 'm MemoryCatalog) result" where
  "MemoryCatalog_len self = (Inr (length (catalogs self)), self)"

fun catalog_has :: "(nat \<times> 'm MemoryLogBook) list \<Rightarrow> nat \<Rightarrow> bool" where
  "catalog_has [] job = False"
| "catalog_has ((j, _) # rest) job = (if j = job then True else catalog_has rest job)"

definition MemoryCatalog_contains :: "'m MemoryCatalog \<Rightarrow> job \<Rightarrow> (bool, 'm MemoryCatalog) result" where
  "MemoryCatalog_contains self job = (Inr (catalog_has (catalogs self) (job_id job)), self)"

definition MemoryCatalog_close :: "'m MemoryCatalog \<Rightarrow> 'm MemoryCatalog" where
  "MemoryCatalog_close self = self\<lparr>c_closed := True\<rparr>"

fun catalog_find :: "(nat \<times> 'm MemoryLogBook) list \<Rightarrow> nat \<Rightarrow> 'm MemoryLogBook option" where
  "catalog_find [] job = None"
| "catalog_find ((j, b) # rest) job = (if j = job then Some b else catalog_find rest job)"

definition MemoryCatalog_create_or_fetch ::
  "'m MemoryCatalog \<Rightarrow> job \<Rightarrow> ('m MemoryLogBook, 'm MemoryCatalog) result" where
  "MemoryCatalog_create_or_fetch self job =
     check_not_closed c_closed (\<lambda>self.
       case catalog_find (catalogs self) (job_id job) of
         Some b \<Rightarrow> (Inr b, self)
       | None \<Rightarrow>
           (let b = MemoryLogBook_init
            in (Inr b, self\<lparr>catalogs := catalogs self @ [(job_id job, b)]\<rparr>))) self"

definition MemoryCatalog_erase :: "'m MemoryCatalog \<Rightarrow> job \<Rightarrow> (unit, 'm MemoryCatalog) result" where
  "MemoryCatalog_erase self job =
     check_not_closed c_closed (\<lambda>self.
       (Inr (), self\<lparr>catalogs := [(j, b) \<leftarrow> catalogs self. j \<noteq> job_id job]\<rparr>)) self"

subsection \<open>MemoryJobBoard\<close>

text \<open>
  Modelled from the spec: the base class \<^verbatim>\<open>jobboard.JobBoard\<close> with \<^verbatim>\<open>_notify_posted\<close>
  and \<^verbatim>\<open>_notify_erased\<close> is not among the sources; the board records the notifications
  it sends, in order.
\<close>

datatype notification = Posted nat | Erased nat

text \<open>
  A timestamp is a point of \<^verbatim>\<open>datetime.utcnow()\<close>'s clock, read as an integer.
  \<open>board_id\<close> is the identity of the board, which \<^verbatim>\<open>post\<close> stores in the job. The
  reader-writer lock is not modelled, and the event that \<^verbatim>\<open>post\<close> and \<^verbatim>\<open>repost\<close> set
  and clear at once is left as they leave it, clear.
\<close>

type_synonym datetime = int

record MemoryJobBoard =
  board_id :: nat
  board :: "(datetime \<times> nat) list"
  jb_closed :: bool
  notified :: "notification list"

definition MemoryJobBoard_init :: "nat \<Rightarrow> MemoryJobBoard" where
  "MemoryJobBoard_init ident = \<lparr>board_id = ident, board = [], jb_closed = False, notified = []\<rparr>"

definition MemoryJobBoard_close :: "MemoryJobBoard \<Rightarrow> MemoryJobBoard" where
  "MemoryJobBoard_close self = self\<lparr>jb_closed := True\<rparr>"

definition select_posts :: "MemoryJobBoard \<Rightarrow> (datetime \<Rightarrow> bool) \<Rightarrow> nat list" where
  "select_posts self date_functor = [j. (d, j) \<leftarrow> board self, date_functor d]"

text \<open>\<^verbatim>\<open>repost\<close> is not decorated.\<close>

definition repost :: "MemoryJobBoard \<Rightarrow> job \<Rightarrow> (unit, MemoryJobBoard) result" where
  "repost self job = (Inr (), self\<lparr>notified := notified self @ [Posted (job_id job)]\<rparr>)"

text \<open>\<open>utcnow\<close> is the reading of the clock at the call. The job comes back updated.\<close>

definition post :: "MemoryJobBoard \<Rightarrow> datetime \<Rightarrow> job \<Rightarrow> (job, MemoryJobBoard) result" where
  "post self utcnow job =
     check_not_closed jb_closed (\<lambda>self.
       (Inr (job\<lparr>job_posted_on := job_posted_on job @ [board_id self]\<rparr>),
        self\<lparr>board := board self @ [(utcnow, job_id job)],
             notified := notified self @ [Posted (job_id job)]\<rparr>)) self"

definition posted_before :: "MemoryJobBoard \<Rightarrow> datetime option \<Rightarrow> (nat list, MemoryJobBoard) result" where
  "posted_before self date_posted =
     check_not_closed jb_closed (\<lambda>self.
       (let date_functor = (case date_posted of None \<Rightarrow> (\<lambda>d. True) | Some p \<Rightarrow> (\<lambda>d. d < p))
        in (Inr (select_posts self date_functor), self))) self"

text \<open>The loop of \<^verbatim>\<open>erase\<close> that looks for the job on the board.\<close>

fun job_exists :: "(datetime \<times> nat) list \<Rightarrow> nat \<Rightarrow> bool" where
  "job_exists [] job = False"
| "job_exists ((d, j) # rest) job = (if j = job then True else job_exists rest job)"

definition erase :: "MemoryJobBoard \<Rightarrow> job \<Rightarrow> (unit, MemoryJobBoard) result" where
  "erase self job =
     check_not_closed jb_closed (\<lambda>self.
       if \<not> job_exists (board self) (job_id job) then (Inl JobNotFound, self)
       else if job_state job \<notin> {SUCCESS, FAILURE} then (Inl InvalidStateException, self)
       else (Inr (), self\<lparr>board := [(d, j) \<leftarrow> board self. j \<noteq> job_id job],
                          notified := notified self @ [Erased (job_id job)]\<rparr>)) self"

definition posted_after :: "MemoryJobBoard \<Rightarrow> datetime option \<Rightarrow> (nat list, MemoryJobBoard) result" where
  "posted_after self date_posted =
     check_not_closed jb_closed (\<lambda>self.
       (let date_functor = (case date_posted of None \<Rightarrow> (\<lambda>d. True) | Some p \<Rightarrow> (\<lambda>d. d \<ge> p))
        in (Inr (select_posts self date_functor), self))) self"

text \<open>
  \<^verbatim>\<open>await\<close> waits on the event; the model keeps its guard and returns at once.
\<close>

definition await :: "MemoryJobBoard \<Rightarrow> (unit, MemoryJobBoard) result" where
  "await self = check_not_closed jb_closed (\<lambda>self. (Inr (), self)) self"

subsection \<open>The invariant of a log book and example objects\<close>

text \<open>
  A log book keeps the names of its flow details twice: in the list and in the set. Every
  book built from \<open>MemoryLogBook_init\<close> by its methods keeps the two in step, and the
  names distinct.
\<close>

definition logbook_inv :: "'m MemoryLogBook \<Rightarrow> bool" where
  "logbook_inv self \<longleftrightarrow>
     flow_names self = fd_name ` set (flows self) \<and> distinct (map fd_name (flows self))"

definition ex_board :: MemoryJobBoard where
  "ex_board = \<lparr>board_id = 0, board = [(10, 1), (20, 2)], jb_closed = False, notified = []\<rparr>"

definition ex_job :: "nat \<Rightarrow> state \<Rightarrow> job" where
  "ex_job i s = \<lparr>job_id = i, job_state = s, job_owner = None, job_posted_on = [0]\<rparr>"

definition ex_catalog :: "unit MemoryCatalog" where
  "ex_catalog =
     \<lparr>catalogs = [(1, MemoryLogBook_init), (2, MemoryLogBook_init), (1, MemoryLogBook_init)],
      c_closed = False\<rparr>"

text \<open>A board on which the same job was posted twice, at times 1 and 5.\<close>

definition twice_posted :: MemoryJobBoard where
  "twice_posted =
     (let j = \<lparr>job_id = 7, job_state = ''UNCLAIMED'', job_owner = None, job_posted_on = []\<rparr>;
          b0 = MemoryJobBoard_init 0;
          b1 = snd (post b0 1 j);
          b2 = snd (post b1 5 j)
      in b2)"

definition ex_book :: "unit MemoryLogBook" where
  "ex_book = snd (MemoryLogBook_add_flow MemoryLogBook_init ''deploy'')"

definition closed_catalog :: "unit MemoryCatalog" where
  "closed_catalog = MemoryCatalog_close MemoryCatalog_init"

definition closed_book :: "unit MemoryLogBook" where
  "closed_book = MemoryLogBook_close MemoryLogBook_init"

definition closed_board :: MemoryJobBoard where
  "closed_board = MemoryJobBoard_close (MemoryJobBoard_init 0)"

definition some_job :: job where
  "some_job = \<lparr>job_id = 1, job_state = SUCCESS, job_owner = None, job_posted_on = []\<rparr>"

section \<open>The graph flow\<close>

text \<open>
  Modelled from the spec: the module \<^verbatim>\<open>taskflow/patterns/graph_flow.py\<close> is not among
  the sources, only its unit test is. The definitions of this section follow sections 3
  and 4 of the spec.
\<close>

subsection \<open>Values, task descriptors and flows\<close>

text \<open>
  Modelled from the spec: the values that tasks return and are passed. The spec names
  mappings from names to values, lists of values (the fan-in of several producers) and
  \<^verbatim>\<open>None\<close>; the tests use integers and booleans.
\<close>

datatype pyval =
    NoneV
  | BoolV bool
  | IntV int
  | StrV string
  | ListV "pyval list"
  | DictV "(string \<times> pyval) list"

text \<open>
  Modelled from the spec: the cause handed to a compensation (section 3) carries the
  owning flow, read-only, and the triggering failure. Of the flow a compensation can
  read the state, as it is when the compensation is invoked.
\<close>

record cause =
  cause_flow_state :: state
  cause_error :: exn

text \<open>
  Modelled from the spec: the task descriptor of sections 3 and 4.1. \<open>requires\<close> and
  \<open>provides\<close> are sets of names, kept as lists. The unit of work takes the context and
  the resolved inputs; it returns a value or raises, and may change the context either
  way. The compensation takes the context, the result of the task and the cause; an
  error it raises is returned as \<open>Some\<close>.
\<close>

record 'c task =
  tname :: string
  requires :: "string list"
  provides :: "string list"
  execute :: "'c \<Rightarrow> (string \<times> pyval) list \<Rightarrow> (exn + pyval) \<times> 'c"
  revert :: "('c \<Rightarrow> pyval \<Rightarrow> cause \<Rightarrow> exn option \<times> 'c) option"

text \<open>
  Modelled from the spec: the outcome of a completed task (section 3), the raw value it
  returned and the inputs it was passed.
\<close>

record outcome =
  raw_result :: pyval
  resolved_inputs :: "(string \<times> pyval) list"

text \<open>
  Modelled from the spec: the flow of section 3. A task is referred to by its handle, its
  position in \<open>tasks\<close> (section 9, the graph as an arena with integer handles);
  \<open>results\<close> pairs the handle of each completed task with its outcome, in completion
  order. The graph is derived from the tasks whenever it is needed.
\<close>

record 'c flow =
  f_name :: string
  flow_state :: state
  allow_same_inputs :: bool
  tasks :: "'c task list"
  results :: "(nat \<times> outcome) list"

definition Flow_init :: "string \<Rightarrow> bool \<Rightarrow> 'c flow" where
  "Flow_init name asi =
     \<lparr>f_name = name, flow_state = PENDING, allow_same_inputs = asi, tasks = [], results = []\<rparr>"

text \<open>
  Modelled from the spec: \<open>add\<close> (section 4.4) appends a task descriptor and is permitted
  only while the flow is \<open>PENDING\<close>; nothing is validated.
\<close>

definition Flow_add :: "'c flow \<Rightarrow> 'c task \<Rightarrow> (unit, 'c flow) result" where
  "Flow_add f t =
     (if flow_state f \<noteq> PENDING then (Inl InvalidStateException, f)
      else (Inr (), f\<lparr>tasks := tasks f @ [t]\<rparr>))"

subsection \<open>The dependency graph builder\<close>

text \<open>
  Modelled from the spec: the dependency graph of section 3. A node is the handle of a
  task, an edge goes from a producer through an output name to a consumer that requires
  the name, and the two indices map a name to its producers and a task to the names it
  needs.
\<close>

record graph =
  nodes :: "nat list"
  edges :: "(nat \<times> string \<times> nat) list"
  provides_index :: "string \<Rightarrow> nat list"
  requires_index :: "nat \<Rightarrow> string list"

definition producers_of :: "'c task list \<Rightarrow> string \<Rightarrow> nat list" where
  "producers_of ts n = [p \<leftarrow> [0..<length ts]. n \<in> set (provides (ts ! p))]"

definition provided_names :: "'c task list \<Rightarrow> string list" where
  "provided_names ts = remdups (concat (map provides ts))"

definition build_edges :: "'c task list \<Rightarrow> (nat \<times> string \<times> nat) list" where
  "build_edges ts =
     [(p, n, c). c \<leftarrow> [0..<length ts], n \<leftarrow> requires (ts ! c), p \<leftarrow> producers_of ts n]"

subsection \<open>The topological scheduler\<close>

text \<open>
  Modelled from the spec: the scheduler of section 4.3. It selects all tasks that are
  ready, the ones with no incoming edge in the remaining graph, appends them in insertion
  order, removes them and their outgoing edges, and repeats until no task remains; tasks
  that remain with none ready are on a cycle, which is an \<open>InvalidStateException\<close>.
\<close>

definition ready_tasks :: "nat list \<Rightarrow> (nat \<times> string \<times> nat) list \<Rightarrow> nat list" where
  "ready_tasks remaining es = [c \<leftarrow> remaining. \<forall>(p, n, c') \<in> set es. c' \<noteq> c]"

function kahn :: "nat list \<Rightarrow> (nat \<times> string \<times> nat) list \<Rightarrow> nat list \<Rightarrow> exn + nat list" where
  "kahn remaining es acc =
     (if remaining = [] then Inr acc
      else if ready_tasks remaining es = [] then Inl InvalidStateException
      else kahn [c \<leftarrow> remaining. c \<notin> set (ready_tasks remaining es)]
                [(p, n, c) \<leftarrow> es. p \<notin> set (ready_tasks remaining es)]
                (acc @ ready_tasks remaining es))"
  by pat_completeness auto
termination
proof (relation "measure (\<lambda>(remaining, es, acc). length remaining)")
  fix remaining :: "nat list" and es :: "(nat \<times> string \<times> nat) list" and acc :: "nat list"
  assume "ready_tasks remaining es \<noteq> []"
  then obtain c where c: "c \<in> set (ready_tasks remaining es)"
    by (cases "ready_tasks remaining es") auto
  then have "c \<in> set remaining" by (simp add: ready_tasks_def)
  with c have "length [c \<leftarrow> remaining. c \<notin> set (ready_tasks remaining es)] < length remaining"
    by (intro length_filter_less [of c]) auto
  then show "(([c \<leftarrow> remaining. c \<notin> set (ready_tasks remaining es)],
               [(p, n, c) \<leftarrow> es. p \<notin> set (ready_tasks remaining es)],
               acc @ ready_tasks remaining es), (remaining, es, acc))
             \<in> measure (\<lambda>(remaining, es, acc). length remaining)"
    by simp
qed simp

declare kahn.simps [simp del]

text \<open>
  Modelled from the spec: \<open>connect\<close> (section 4.2). Step 1 builds the index of the
  producers, step 2 rejects a name with several producers unless \<open>allow_same_inputs\<close>,
  step 3 rejects a required name with no producer, step 4 builds the edges, step 5
  rejects a cycle, found by a pass of the scheduler, and step 6 returns the graph. The
  three failures are the one kind \<open>InvalidStateException\<close>.
\<close>

definition connect_tasks :: "'c task list \<Rightarrow> bool \<Rightarrow> exn + graph" where
  "connect_tasks ts asi =
     (let index = producers_of ts in
      if \<not> asi \<and> (\<exists>n \<in> set (provided_names ts). length (index n) > 1)
      then Inl InvalidStateException
      else if \<exists>c \<in> set [0..<length ts]. \<exists>n \<in> set (requires (ts ! c)). index n = []
      then Inl InvalidStateException
      else
        (let es = build_edges ts
         in case kahn [0..<length ts] es [] of
              Inl e \<Rightarrow> Inl e
            | Inr _ \<Rightarrow>
                Inr \<lparr>nodes = [0..<length ts], edges = es, provides_index = index,
                     requires_index = (\<lambda>c. requires (ts ! c))\<rparr>))"

text \<open>
  Modelled from the spec: \<open>order\<close> (section 4.3) on a graph, and \<open>connect\<close> and \<open>order\<close>
  on a flow; \<open>order\<close> builds and validates the graph first. Neither changes the flow.
\<close>

definition order_graph :: "graph \<Rightarrow> exn + nat list" where
  "order_graph g = kahn (nodes g) (edges g) []"

definition Flow_connect :: "'c flow \<Rightarrow> exn + graph" where
  "Flow_connect f = connect_tasks (tasks f) (allow_same_inputs f)"

definition Flow_order :: "'c flow \<Rightarrow> exn + nat list" where
  "Flow_order f = (case Flow_connect f of Inl e \<Rightarrow> Inl e | Inr g \<Rightarrow> order_graph g)"

subsection \<open>The flow execution state machine\<close>

text \<open>
  Modelled from the spec: the resolution of inputs (section 4.4, step 3a). The output pool
  holds the pairs of a name and a value in the order the producers completed;
  \<open>collected\<close> are the values of one name.
\<close>

definition collected :: "(string \<times> pyval) list \<Rightarrow> string \<Rightarrow> pyval list" where
  "collected pool n = [v. (k, v) \<leftarrow> pool, k = n]"

text \<open>
  Modelled from the spec: what a consumer is passed for a name, given the values collected
  for it: the single value, or the list of the values when more than one producer
  supplied it. The spec does not say what is passed when no value was supplied; the model
  then passes nothing under that name.
\<close>

fun fan_in :: "pyval list \<Rightarrow> pyval option" where
  "fan_in [] = None"
| "fan_in [v] = Some v"
| "fan_in vs = Some (ListV vs)"

definition resolve :: "(string \<times> pyval) list \<Rightarrow> string list \<Rightarrow> (string \<times> pyval) list" where
  "resolve pool reqs =
     [(n, v). n \<leftarrow> remdups reqs,
              v \<leftarrow> (case fan_in (collected pool n) of None \<Rightarrow> [] | Some v \<Rightarrow> [v])]"

text \<open>
  Modelled from the spec: the output a completed task supplies for a name it declares,
  read from the value it returned. The spec does not say what a producer supplies for a
  declared name that its returned mapping lacks, or when it returned no mapping; the
  model takes \<^verbatim>\<open>None\<close>, as a lookup with a default does, so that every completed
  producer supplies exactly one value for each name it declares.
\<close>

definition output_for :: "pyval \<Rightarrow> string \<Rightarrow> pyval" where
  "output_for raw n =
     (case raw of
        DictV kv \<Rightarrow> (case map_of kv n of None \<Rightarrow> NoneV | Some v \<Rightarrow> v)
      | _ \<Rightarrow> NoneV)"

text \<open>
  Modelled from the spec: the merge of a completed task's declared outputs into the pool
  (step 3c), one pair for each name the task declares.
\<close>

definition merge_outputs :: "'c task \<Rightarrow> pyval \<Rightarrow> (string \<times> pyval) list" where
  "merge_outputs t raw = [(n, output_for raw n). n \<leftarrow> remdups (provides t)]"

text \<open>
  Modelled from the spec: what \<open>run\<close> leaves behind. The flow and the context are the
  objects as changed; \<open>rr_raised\<close> is the error surfaced to the caller, if any;
  \<open>rr_invoked\<close> lists the tasks whose unit of work was invoked and \<open>rr_reverted\<close> the
  compensations that were invoked, with their arguments, both in order.
\<close>

record 'c run_result =
  rr_flow :: "'c flow"
  rr_context :: 'c
  rr_raised :: "exn option"
  rr_invoked :: "nat list"
  rr_reverted :: "(nat \<times> pyval \<times> cause) list"

text \<open>
  Modelled from the spec: the compensations of step 3d, for the completed tasks given
  most recent first. A task without a compensation is skipped, and an error raised by a
  compensation is dropped, so that the remaining ones still run.
\<close>

fun revert_all ::
  "'c flow \<Rightarrow> exn \<Rightarrow> 'c \<Rightarrow> (nat \<times> outcome) list \<Rightarrow> 'c \<times> (nat \<times> pyval \<times> cause) list" where
  "revert_all f e ctx [] = (ctx, [])"
| "revert_all f e ctx ((i, out) # rest) =
     (case revert (tasks f ! i) of
        None \<Rightarrow> revert_all f e ctx rest
      | Some compensation \<Rightarrow>
          (let c = \<lparr>cause_flow_state = flow_state f, cause_error = e\<rparr>;
               (_, ctx') = compensation ctx (raw_result out) c;
               (ctx'', log) = revert_all f e ctx' rest
           in (ctx'', (i, raw_result out, c) # log)))"

text \<open>
  Modelled from the spec: the loop of step 3 over the computed order. A task that returns
  is recorded in \<open>results\<close> and its outputs are merged; when a unit of work raises, the
  flow goes to \<open>REVERTING\<close>, the completed tasks are compensated in reverse completion
  order, the flow settles in \<open>FAILURE\<close> and the error is surfaced. Step 4 is the end of
  the order.
\<close>

fun run_tasks ::
  "'c flow \<Rightarrow> 'c \<Rightarrow> (string \<times> pyval) list \<Rightarrow> nat list \<Rightarrow> nat list \<Rightarrow> 'c run_result" where
  "run_tasks f ctx pool invoked [] =
     \<lparr>rr_flow = f\<lparr>flow_state := SUCCESS\<rparr>, rr_context = ctx, rr_raised = None,
      rr_invoked = invoked, rr_reverted = []\<rparr>"
| "run_tasks f ctx pool invoked (i # rest) =
     (let t = tasks f ! i;
          inputs = resolve pool (requires t)
      in case execute t ctx inputs of
           (Inr raw, ctx') \<Rightarrow>
             run_tasks (f\<lparr>results := results f @ [(i, \<lparr>raw_result = raw, resolved_inputs = inputs\<rparr>)]\<rparr>)
               ctx' (pool @ merge_outputs t raw) (invoked @ [i]) rest
         | (Inl e, ctx') \<Rightarrow>
             (let f' = f\<lparr>flow_state := REVERTING\<rparr>;
                  (ctx'', log) = revert_all f' e ctx' (rev (results f'))
              in \<lparr>rr_flow = f'\<lparr>flow_state := FAILURE\<rparr>, rr_context = ctx'', rr_raised = Some e,
                  rr_invoked = invoked @ [i], rr_reverted = log\<rparr>))"

text \<open>
  Modelled from the spec: \<open>run\<close> (section 4.4, steps 1 and 2). A flow that is not
  \<open>PENDING\<close> is left as it is, with an \<open>InvalidStateException\<close>; a validation failure
  takes the flow to \<open>FAILURE\<close> with no task invoked.
\<close>

definition Flow_run :: "'c flow \<Rightarrow> 'c \<Rightarrow> 'c run_result" where
  "Flow_run f ctx =
     (if flow_state f \<noteq> PENDING
      then \<lparr>rr_flow = f, rr_context = ctx, rr_raised = Some InvalidStateException,
            rr_invoked = [], rr_reverted = []\<rparr>
      else case Flow_order f of
             Inl e \<Rightarrow>
               \<lparr>rr_flow = f\<lparr>flow_state := FAILURE\<rparr>, rr_context = ctx, rr_raised = Some e,
                rr_invoked = [], rr_reverted = []\<rparr>
           | Inr ord \<Rightarrow> run_tasks (f\<lparr>flow_state := RUNNING\<rparr>) ctx [] [] ord)"

subsection \<open>Notions used in the properties\<close>

text \<open>\<open>p\<close> stands strictly before \<open>c\<close> in the order.\<close>

definition before_in :: "nat list \<Rightarrow> nat \<Rightarrow> nat \<Rightarrow> bool" where
  "before_in ord p c \<longleftrightarrow> (\<exists>i j. i < j \<and> j < length ord \<and> ord ! i = p \<and> ord ! j = c)"

text \<open>The dependency relation of the tasks: a producer and a consumer of one name.\<close>

definition depends_on :: "'c task list \<Rightarrow> (nat \<times> nat) set" where
  "depends_on ts =
     {(p, c). p < length ts \<and> c < length ts
            \<and> (\<exists>n. n \<in> set (provides (ts ! p)) \<and> n \<in> set (requires (ts ! c)))}"

text \<open>What a task declares, and a unit of work that never raises.\<close>

definition declares :: "'c task \<Rightarrow> string \<Rightarrow> string list \<Rightarrow> string list \<Rightarrow> bool" where
  "declares t name reqs provs \<longleftrightarrow> tname t = name \<and> requires t = reqs \<and> provides t = provs"

definition always_succeeds :: "'c task \<Rightarrow> bool" where
  "always_succeeds t \<longleftrightarrow> (\<forall>ctx inputs. \<exists>raw ctx'. execute t ctx inputs = (Inr raw, ctx'))"

text \<open>
  The values that the completed tasks \<open>rs\<close> supplied for the name \<open>n\<close>, in completion
  order: one for each of them that declares \<open>n\<close> among its \<open>provides\<close>.
\<close>

definition supplied :: "'c task list \<Rightarrow> (nat \<times> outcome) list \<Rightarrow> string \<Rightarrow> pyval list" where
  "supplied ts rs n =
     map (\<lambda>x. output_for (raw_result (snd x)) n) [x \<leftarrow> rs. n \<in> set (provides (ts ! fst x))]"

text \<open>The output pool after the completed tasks \<open>rs\<close>.\<close>

definition pool_of :: "'c task list \<Rightarrow> (nat \<times> outcome) list \<Rightarrow> (string \<times> pyval) list" where
  "pool_of ts rs = concat (map (\<lambda>(i, out). merge_outputs (ts ! i) (raw_result out)) rs)"

text \<open>Every completed task was passed the inputs resolved from the pool of the tasks before it.\<close>

definition inputs_ok :: "'c task list \<Rightarrow> (nat \<times> outcome) list \<Rightarrow> bool" where
  "inputs_ok ts rs \<longleftrightarrow>
     (\<forall>k < length rs. resolved_inputs (snd (rs ! k)) =
        resolve (pool_of ts (take k rs)) (requires (ts ! fst (rs ! k))))"

subsection \<open>The flows of the unit test\<close>

text \<open>
  Modelled from the spec: the test helper \<^verbatim>\<open>utils.ProvidesRequiresTask\<close> is not among the
  sources. It has no compensation; its unit of work appends its name to the run order
  kept in the context and yields \<^verbatim>\<open>True\<close> for each name it provides.
\<close>

definition ProvidesRequiresTask :: "string \<Rightarrow> string list \<Rightarrow> string list \<Rightarrow> string list task" where
  "ProvidesRequiresTask name provs reqs =
     \<lparr>tname = name, requires = reqs, provides = provs,
      execute = (\<lambda>ctx inputs. (Inr (DictV (map (\<lambda>p. (p, BoolV True)) provs)), ctx @ [name])),
      revert = None\<rparr>"

definition flow_of :: "string \<Rightarrow> bool \<Rightarrow> 'c task list \<Rightarrow> 'c flow" where
  "flow_of name asi ts = foldl (\<lambda>f t. snd (Flow_add f t)) (Flow_init name asi) ts"

definition no_requires_provider :: "string list flow" where
  "no_requires_provider =
     flow_of ''test-flow'' True [ProvidesRequiresTask ''test1'' [''a'', ''b''] [''c'', ''d'']]"

definition looping_flow :: "string list flow" where
  "looping_flow =
     flow_of ''test-flow'' True
       [ProvidesRequiresTask ''test1'' [''a'', ''b''] [''c'', ''d'', ''e''],
        ProvidesRequiresTask ''test2'' [''c'', ''d'', ''e''] [''a'', ''b'']]"

definition run1_revert :: "string list \<Rightarrow> pyval \<Rightarrow> cause \<Rightarrow> exn option \<times> string list" where
  "run1_revert context result c =
     (if cause_flow_state c = REVERTING \<and> result = DictV [(''a'', IntV 1)]
      then (None, context @ [''run1''])
      else (Some (Exception ''AssertionError''), context @ [''run1'']))"

definition reverting_flow :: "string list flow" where
  "reverting_flow =
     flow_of ''test-flow'' True
       [\<lparr>tname = ''run1'', requires = [], provides = [''a''],
         execute = (\<lambda>context inputs. (Inr (DictV [(''a'', IntV 1)]), context)),
         revert = Some run1_revert\<rparr>,
        \<lparr>tname = ''run2'', requires = [''a''], provides = [''c''],
         execute = (\<lambda>context inputs. (Inl (Exception ''Dead''), context)),
         revert = None\<rparr>]"

definition happy_task :: "string \<Rightarrow> string list \<Rightarrow> string list \<Rightarrow> string \<Rightarrow> pyval \<Rightarrow> string list task" where
  "happy_task name reqs provs mark result =
     \<lparr>tname = name, requires = reqs, provides = provs,
      execute = (\<lambda>context inputs. (Inr result, context @ [mark])),
      revert = None\<rparr>"

definition happy_run1 :: "string list task" where
  "happy_run1 = happy_task ''run1'' [] [''a''] ''ran1'' (DictV [(''a'', IntV 1)])"

definition happy_run2 :: "string list task" where
  "happy_run2 = happy_task ''run2'' [''a''] [''c''] ''ran2'' (DictV [(''c'', IntV 3)])"

definition happy_run3 :: "string list task" where
  "happy_run3 = happy_task ''run3'' [''a''] [''b''] ''ran3'' (DictV [(''b'', IntV 2)])"

definition happy_run4 :: "string list task" where
  "happy_run4 = happy_task ''run4'' [''b'', ''c''] [] ''ran4'' NoneV"

definition happy_flow :: "string list flow" where
  "happy_flow = flow_of ''test-flow'' True [happy_run1, happy_run2, happy_run3, happy_run4]"

definition happy_flow_reversed :: "string list flow" where
  "happy_flow_reversed = flow_of ''test-flow'' True [happy_run4, happy_run3, happy_run2, happy_run1]"

definition multi_provider_disallowed :: "string list flow" where
  "multi_provider_disallowed =
     flow_of ''test-flow'' False
       [ProvidesRequiresTask ''test6'' [''y''] [],
        ProvidesRequiresTask ''test7'' [''y''] [],
        ProvidesRequiresTask ''test8'' [] [''y'']]"

definition multi_provider_allowed :: "string list flow" where
  "multi_provider_allowed =
     flow_of ''test-flow'' True
       [ProvidesRequiresTask ''test6'' [''y'', ''z''] [],
        ProvidesRequiresTask ''test7'' [''y''] [''z''],
        ProvidesRequiresTask ''test8'' [] [''y'', ''z'']]"

text \<open>
  A flow in which the producer added second completes first: \<open>early\<close> provides \<open>y\<close> and
  \<open>z\<close>, \<open>late\<close> requires \<open>z\<close> and provides \<open>y\<close>, and \<open>consumer\<close> requires both.
\<close>

definition value_task :: "string \<Rightarrow> string list \<Rightarrow> string list \<Rightarrow> pyval \<Rightarrow> string list task" where
  "value_task name reqs provs result =
     \<lparr>tname = name, requires = reqs, provides = provs,
      execute = (\<lambda>context inputs. (Inr result, context @ [name])),
      revert = None\<rparr>"

definition completion_order_flow :: "string list flow" where
  "completion_order_flow =
     flow_of ''fan-in'' True
       [value_task ''late'' [''z''] [''y''] (DictV [(''y'', IntV 1)]),
        value_task ''early'' [] [''y'', ''z''] (DictV [(''y'', IntV 2), (''z'', IntV 0)]),
        value_task ''consumer'' [''y'', ''z''] [] NoneV]"

section \<open>Properties of the memory backend\<close>

lemma job_exists_iff: "job_exists b i \<longleftrightarrow> i \<in> snd ` set b"
  by (induction b i rule: job_exists.induct) auto

subsection \<open>Erasing a job from the board\<close>

text \<open>
  Claim C6. On an open board, \<open>erase\<close> raises \<open>JobNotFound\<close> when the job is not
  posted, raises \<open>InvalidStateException\<close> when it is posted and its state is neither
  \<open>SUCCESS\<close> nor \<open>FAILURE\<close>, and leaves the board as it was in both cases; otherwise
  it removes every posting of the job, keeps the other postings, and notifies the erasure.
\<close>

theorem erase_cases:
  assumes "\<not> jb_closed self"
  shows "(job_id job \<notin> snd ` set (board self) \<longrightarrow> erase self job = (Inl JobNotFound, self))
       \<and> (job_id job \<in> snd ` set (board self) \<and> job_state job \<noteq> SUCCESS \<and> job_state job \<noteq> FAILURE
            \<longrightarrow> erase self job = (Inl InvalidStateException, self))
       \<and> (job_id job \<in> snd ` set (board self) \<and> (job_state job = SUCCESS \<or> job_state job = FAILURE)
            \<longrightarrow> erase self job =
                  (Inr (), self\<lparr>board := filter (\<lambda>(d, j). j \<noteq> job_id job) (board self),
                                notified := notified self @ [Erased (job_id job)]\<rparr>)
              \<and> job_id job \<notin> snd ` set (board (snd (erase self job)))
              \<and> (\<forall>e \<in> set (board self). snd e \<noteq> job_id job \<longrightarrow> e \<in> set (board (snd (erase self job)))))"
  using assms by (auto simp: erase_def check_not_closed_def job_exists_iff)

theorem erase_cases_witness:
  "erase ex_board (ex_job 3 SUCCESS) = (Inl JobNotFound, ex_board)
 \<and> erase ex_board (ex_job 1 RUNNING) = (Inl InvalidStateException, ex_board)
 \<and> erase ex_board (ex_job 1 SUCCESS) =
      (Inr (), \<lparr>board_id = 0, board = [(20, 2)], jb_closed = False, notified = [Erased 1]\<rparr>)"
  using erase_cases [of ex_board "ex_job 3 SUCCESS"] erase_cases [of ex_board "ex_job 1 RUNNING"]
    erase_cases [of ex_board "ex_job 1 SUCCESS"]
  by (simp add: ex_board_def ex_job_def SUCCESS_def RUNNING_def FAILURE_def)

subsection \<open>Erasing a job from the catalog\<close>

text \<open>
  Claim C10. On an open catalog, \<open>MemoryCatalog_erase\<close> never raises: it removes every
  entry of the job, and leaves the catalog as it was when the job has none, whereas the
  board's \<open>erase\<close> raises \<open>JobNotFound\<close> for a job that is not posted.
\<close>

theorem catalog_erase_absent:
  assumes "\<not> c_closed self"
  shows "fst (MemoryCatalog_erase self job) = Inr ()
       \<and> catalogs (snd (MemoryCatalog_erase self job)) = [(j, b) \<leftarrow> catalogs self. j \<noteq> job_id job]
       \<and> c_closed (snd (MemoryCatalog_erase self job)) = c_closed self
       \<and> job_id job \<notin> fst ` set (catalogs (snd (MemoryCatalog_erase self job)))
       \<and> (job_id job \<notin> fst ` set (catalogs self) \<longrightarrow> MemoryCatalog_erase self job = (Inr (), self))
       \<and> (\<forall>jb. \<not> jb_closed jb \<longrightarrow> job_id job \<notin> snd ` set (board jb)
             \<longrightarrow> erase jb job = (Inl JobNotFound, jb))"
proof -
  have "job_id job \<notin> fst ` set (catalogs self) \<Longrightarrow> [(j, b) \<leftarrow> catalogs self. j \<noteq> job_id job] = catalogs self"
    by (rule filter_True) force
  then show ?thesis
    using assms by (auto simp: MemoryCatalog_erase_def check_not_closed_def erase_def job_exists_iff)
qed

theorem catalog_erase_absent_witness:
  "MemoryCatalog_erase ex_catalog (ex_job 3 SUCCESS) = (Inr (), ex_catalog)
 \<and> MemoryCatalog_erase ex_catalog (ex_job 1 SUCCESS) =
      (Inr (), \<lparr>catalogs = [(2, MemoryLogBook_init)], c_closed = False\<rparr>)
 \<and> erase ex_board (ex_job 3 SUCCESS) = (Inl JobNotFound, ex_board)"
proof -
  have open_catalog: "\<not> c_closed ex_catalog"
    by (simp add: ex_catalog_def)
  have "\<not> jb_closed ex_board" "job_id (ex_job 3 SUCCESS) \<notin> snd ` set (board ex_board)"
    by (simp_all add: ex_board_def ex_job_def)
  then show ?thesis
    using catalog_erase_absent [OF open_catalog, of "ex_job 3 SUCCESS"]
      catalog_erase_absent [OF open_catalog, of "ex_job 1 SUCCESS"]
    by (simp add: ex_catalog_def ex_job_def prod_eq_iff)
qed

subsection \<open>Postings before and after a time\<close>

lemma select_split:
  "mset [j. (d, j) \<leftarrow> b, d < (p::int)] + mset [j. (d, j) \<leftarrow> b, d \<ge> p] = mset (map snd b)"
  by (induction b) auto

lemma select_all: "[j. (d, j) \<leftarrow> b, True] = map snd b"
  by (induction b) auto

lemma select_disjoint:
  "distinct (map snd b) \<Longrightarrow> set [j. (d, j) \<leftarrow> b, d < (p::int)] \<inter> set [j. (d, j) \<leftarrow> b, d \<ge> p] = {}"
  by (induction b) force+

lemma select_posts_split:
  "mset (select_posts self (\<lambda>d. d < p)) + mset (select_posts self (\<lambda>d. d \<ge> p)) = mset (map snd (board self))"
  unfolding select_posts_def by (rule select_split)

lemma select_posts_all: "select_posts self (\<lambda>d. True) = map snd (board self)"
  unfolding select_posts_def by (rule select_all)

lemma select_posts_disjoint:
  "distinct (map snd (board self)) \<Longrightarrow>
   set (select_posts self (\<lambda>d. d < p)) \<inter> set (select_posts self (\<lambda>d. d \<ge> p)) = {}"
  unfolding select_posts_def by (rule select_disjoint)

text \<open>
  Claim C9, as amended. On an open board, \<open>posted_before\<close> selects the postings made
  strictly before the time and \<open>posted_after\<close> those made at or after it, so every
  posting is selected by exactly one of the two: together the lists hold each job as often
  as it is posted, and they share no job when no job is posted twice. Without a time,
  either returns every posted job in posting order. Neither changes the board.
\<close>

theorem posted_partition:
  assumes "\<not> jb_closed self"
  shows "\<exists>before after.
           posted_before self (Some p) = (Inr before, self)
         \<and> posted_after self (Some p) = (Inr after, self)
         \<and> before = [j. (d, j) \<leftarrow> board self, d < p]
         \<and> after = [j. (d, j) \<leftarrow> board self, d \<ge> p]
         \<and> mset before + mset after = mset (map snd (board self))
         \<and> (distinct (map snd (board self)) \<longrightarrow> set before \<inter> set after = {})
         \<and> posted_before self None = (Inr (map snd (board self)), self)
         \<and> posted_after self None = (Inr (map snd (board self)), self)"
proof -
  let ?before = "select_posts self (\<lambda>d. d < p)" and ?after = "select_posts self (\<lambda>d. d \<ge> p)"
  have 1: "posted_before self (Some p) = (Inr ?before, self)"
    and 2: "posted_after self (Some p) = (Inr ?after, self)"
    and 3: "posted_before self None = (Inr (map snd (board self)), self)"
    and 4: "posted_after self None = (Inr (map snd (board self)), self)"
    using assms by (simp_all add: posted_before_def posted_after_def check_not_closed_def select_posts_all)
  have 5: "?before = [j. (d, j) \<leftarrow> board self, d < p]" and 6: "?after = [j. (d, j) \<leftarrow> board self, d \<ge> p]"
    by (simp_all only: select_posts_def)
  show ?thesis
    using 1 2 3 4 5 6 select_posts_split [of self p] select_posts_disjoint [of self p] by blast
qed

theorem posted_partition_witness:
  "posted_before twice_posted (Some 3) = (Inr [7], twice_posted)
 \<and> posted_after twice_posted (Some 3) = (Inr [7], twice_posted)
 \<and> posted_before twice_posted None = (Inr [7, 7], twice_posted)
 \<and> posted_after twice_posted None = (Inr [7, 7], twice_posted)"
  using posted_partition [of twice_posted 3]
  by (simp add: twice_posted_def post_def check_not_closed_def MemoryJobBoard_init_def)

text \<open>
  The claim as stated fails for a job posted twice: posted at times 1 and 5, it is in
  both lists for the time 3.
\<close>

theorem posted_partition_counterexample:
  "fst (posted_before twice_posted (Some 3)) = Inr [7]
 \<and> fst (posted_after twice_posted (Some 3)) = Inr [7]"
  by (simp add: twice_posted_def post_def posted_before_def posted_after_def select_posts_def
      check_not_closed_def MemoryJobBoard_init_def)

subsection \<open>Flow details of a log book, by name\<close>

lemma first_flow_named_None: "flow_name \<notin> fd_name ` set ws \<Longrightarrow> first_flow_named ws flow_name = None"
  by (induction ws) auto

lemma first_flow_named_Some:
  "flow_name \<in> fd_name ` set ws \<Longrightarrow>
   \<exists>w. first_flow_named ws flow_name = Some w \<and> w \<in> set ws \<and> fd_name w = flow_name"
  by (induction ws) auto

lemma first_flow_named_append:
  "first_flow_named (ws @ vs) flow_name =
     (case first_flow_named ws flow_name of None \<Rightarrow> first_flow_named vs flow_name | Some w \<Rightarrow> Some w)"
  by (induction ws) auto

lemma first_flow_named_unique:
  "distinct (map fd_name ws) \<Longrightarrow> w \<in> set ws \<Longrightarrow> first_flow_named ws (fd_name w) = Some w"
  by (induction ws) (auto simp: rev_image_eqI)

lemma logbook_inv_init: "logbook_inv MemoryLogBook_init"
  by (simp add: logbook_inv_def MemoryLogBook_init_def)

lemma logbook_inv_add_flow:
  "logbook_inv self \<Longrightarrow> logbook_inv (snd (MemoryLogBook_add_flow self flow_name))"
  by (auto simp: logbook_inv_def MemoryLogBook_add_flow_def check_not_closed_def
      MemoryFlowDetail_init_def Let_def)

lemma names_remove1:
  "distinct (map fd_name ws) \<Longrightarrow> w \<in> set ws \<Longrightarrow>
   fd_name ` set (remove1 w ws) = fd_name ` set ws - {fd_name w}
   \<and> distinct (map fd_name (remove1 w ws))"
  by (induction ws) (auto simp: rev_image_eqI)

lemma logbook_inv_delitem:
  assumes "logbook_inv self"
  shows "logbook_inv (snd (MemoryLogBook_delitem self flow_name))"
proof (cases "lb_closed self \<or> flow_name \<notin> flow_names self")
  case True
  then show ?thesis
    using assms by (auto simp: MemoryLogBook_delitem_def MemoryLogBook_getitem_def check_not_closed_def)
next
  case False
  then have "flow_name \<in> fd_name ` set (flows self)"
    using assms by (simp add: logbook_inv_def)
  then obtain w where w: "first_flow_named (flows self) flow_name = Some w" "w \<in> set (flows self)"
    "fd_name w = flow_name"
    using first_flow_named_Some by blast
  have d: "distinct (map fd_name (flows self))"
    using assms by (simp add: logbook_inv_def)
  show ?thesis
    using False w assms names_remove1 [OF d w(2)]
    by (simp add: MemoryLogBook_delitem_def MemoryLogBook_getitem_def check_not_closed_def
        logbook_inv_def)
qed

text \<open>
  Claim C8. On an open log book, \<open>add_flow\<close> raises \<open>AlreadyExists\<close> when a flow detail
  of that name is in the book; lookup then returns that flow detail, the only one of the
  name. For a name not in the book, \<open>add_flow\<close> appends and returns a new flow detail
  of that name, which lookup returns from then on while the lookups of the other names
  stay as they were; lookup and removal of the unknown name raise \<open>NotFound\<close>.
\<close>

theorem logbook_by_name:
  assumes "\<not> lb_closed self" and "logbook_inv self"
  shows "(flow_name \<in> fd_name ` set (flows self) \<longrightarrow>
            MemoryLogBook_add_flow self flow_name = (Inl AlreadyExists, self)
          \<and> (\<exists>w. MemoryLogBook_getitem self flow_name = (Inr (Some w), self)
                 \<and> w \<in> set (flows self) \<and> fd_name w = flow_name
                 \<and> (\<forall>v \<in> set (flows self). fd_name v = flow_name \<longrightarrow> v = w)))
       \<and> (flow_name \<notin> fd_name ` set (flows self) \<longrightarrow>
            (\<exists>f self'. MemoryLogBook_add_flow self flow_name = (Inr f, self')
                 \<and> f = MemoryFlowDetail_init flow_name \<and> fd_name f = flow_name
                 \<and> flows self' = flows self @ [f]
                 \<and> \<not> lb_closed self' \<and> logbook_inv self'
                 \<and> MemoryLogBook_getitem self' flow_name = (Inr (Some f), self')
                 \<and> (\<forall>known \<in> fd_name ` set (flows self).
                       fst (MemoryLogBook_getitem self' known) = fst (MemoryLogBook_getitem self known)))
          \<and> MemoryLogBook_getitem self flow_name = (Inl NotFound, self)
          \<and> MemoryLogBook_delitem self flow_name = (Inl NotFound, self))"
proof (intro conjI impI)
  assume known: "flow_name \<in> fd_name ` set (flows self)"
  then show "MemoryLogBook_add_flow self flow_name = (Inl AlreadyExists, self)"
    using assms by (simp add: MemoryLogBook_add_flow_def check_not_closed_def logbook_inv_def)
  obtain w where w: "first_flow_named (flows self) flow_name = Some w" "w \<in> set (flows self)"
    "fd_name w = flow_name"
    using known first_flow_named_Some by blast
  have d: "distinct (map fd_name (flows self))"
    using assms by (simp add: logbook_inv_def)
  have "\<forall>v \<in> set (flows self). fd_name v = flow_name \<longrightarrow> v = w"
    using first_flow_named_unique [OF d] w(1,3) by (metis option.inject)
  moreover have "MemoryLogBook_getitem self flow_name = (Inr (Some w), self)"
    using assms known w by (simp add: MemoryLogBook_getitem_def check_not_closed_def logbook_inv_def)
  ultimately show "\<exists>w. MemoryLogBook_getitem self flow_name = (Inr (Some w), self)
                 \<and> w \<in> set (flows self) \<and> fd_name w = flow_name
                 \<and> (\<forall>v \<in> set (flows self). fd_name v = flow_name \<longrightarrow> v = w)"
    using w by blast
next
  assume new: "flow_name \<notin> fd_name ` set (flows self)"
  then have nin: "flow_name \<notin> flow_names self"
    using assms by (simp add: logbook_inv_def)
  show "MemoryLogBook_getitem self flow_name = (Inl NotFound, self)"
    using assms nin by (simp add: MemoryLogBook_getitem_def check_not_closed_def)
  then show "MemoryLogBook_delitem self flow_name = (Inl NotFound, self)"
    by (simp add: MemoryLogBook_delitem_def)
  let ?f = "MemoryFlowDetail_init flow_name :: 'a MemoryFlowDetail"
  let ?self' = "self\<lparr>flows := flows self @ [?f], flow_names := insert flow_name (flow_names self)\<rparr>"
  have add: "MemoryLogBook_add_flow self flow_name = (Inr ?f, ?self')"
    using assms nin by (simp add: MemoryLogBook_add_flow_def check_not_closed_def Let_def)
  have name: "fd_name ?f = flow_name"
    by (simp add: MemoryFlowDetail_init_def)
  have inv': "logbook_inv ?self'"
    using logbook_inv_add_flow [OF assms(2), of flow_name] add by simp
  have get: "MemoryLogBook_getitem ?self' flow_name = (Inr (Some ?f), ?self')"
    using assms new name
    by (simp add: MemoryLogBook_getitem_def check_not_closed_def first_flow_named_append
        first_flow_named_None)
  have old: "\<forall>known \<in> fd_name ` set (flows self).
      fst (MemoryLogBook_getitem ?self' known) = fst (MemoryLogBook_getitem self known)"
  proof
    fix known assume k: "known \<in> fd_name ` set (flows self)"
    then obtain w where "first_flow_named (flows self) known = Some w"
      using first_flow_named_Some by blast
    moreover have "known \<in> flow_names self"
      using k assms by (simp add: logbook_inv_def)
    ultimately show "fst (MemoryLogBook_getitem ?self' known) = fst (MemoryLogBook_getitem self known)"
      using assms by (simp add: MemoryLogBook_getitem_def check_not_closed_def first_flow_named_append)
  qed
  show "\<exists>f self'. MemoryLogBook_add_flow self flow_name = (Inr f, self')
                 \<and> f = MemoryFlowDetail_init flow_name \<and> fd_name f = flow_name
                 \<and> flows self' = flows self @ [f]
                 \<and> \<not> lb_closed self' \<and> logbook_inv self'
                 \<and> MemoryLogBook_getitem self' flow_name = (Inr (Some f), self')
                 \<and> (\<forall>known \<in> fd_name ` set (flows self).
                       fst (MemoryLogBook_getitem self' known) = fst (MemoryLogBook_getitem self known))"
    using add name inv' get old assms(1) by (intro exI [of _ ?f] exI [of _ ?self']) simp
qed

theorem logbook_by_name_witness:
  "MemoryLogBook_add_flow ex_book ''deploy'' = (Inl AlreadyExists, ex_book)
 \<and> MemoryLogBook_getitem ex_book ''deploy'' = (Inr (Some (MemoryFlowDetail_init ''deploy'')), ex_book)
 \<and> MemoryLogBook_getitem ex_book ''undo'' = (Inl NotFound, ex_book)
 \<and> MemoryLogBook_delitem ex_book ''undo'' = (Inl NotFound, ex_book)
 \<and> fst (MemoryLogBook_add_flow ex_book ''undo'') = Inr (MemoryFlowDetail_init ''undo'')"
proof -
  have open_book: "\<not> lb_closed ex_book"
    by (simp add: ex_book_def MemoryLogBook_add_flow_def MemoryLogBook_init_def check_not_closed_def
        Let_def)
  have inv: "logbook_inv ex_book"
    unfolding ex_book_def by (rule logbook_inv_add_flow [OF logbook_inv_init])
  have fl: "flows ex_book = [MemoryFlowDetail_init ''deploy'']"
    by (simp add: ex_book_def MemoryLogBook_add_flow_def MemoryLogBook_init_def check_not_closed_def
        Let_def)
  show ?thesis
    using logbook_by_name [OF open_book inv, of "''deploy''"] logbook_by_name [OF open_book inv, of "''undo''"]
    by (auto simp: fl MemoryFlowDetail_init_def)
qed

subsection \<open>Closed objects\<close>

text \<open>
  Claim C7, as amended. Once closed, a catalog, a log book and a job board reject every
  decorated operation with \<open>ClosedException\<close> and stay as they are: \<open>create_or_fetch\<close>
  and \<open>erase\<close> of the catalog; \<open>add_flow\<close>, lookup, iteration, membership and removal
  of the log book; \<open>post\<close>, \<open>posted_before\<close>, \<open>posted_after\<close>, \<open>erase\<close> and
  \<open>await\<close> of the board. \<open>close\<close> sets the flag. The length of a catalog or a log
  book is returned whether it is closed or not.
\<close>

theorem closed_rejects:
  "(c_closed c \<longrightarrow>
       MemoryCatalog_create_or_fetch c job = (Inl ClosedException, c)
     \<and> MemoryCatalog_erase c job = (Inl ClosedException, c))
 \<and> (lb_closed b \<longrightarrow>
       MemoryLogBook_add_flow b flow_name = (Inl ClosedException, b)
     \<and> MemoryLogBook_getitem b flow_name = (Inl ClosedException, b)
     \<and> MemoryLogBook_iter b = (Inl ClosedException, b)
     \<and> MemoryLogBook_contains b flow_name = (Inl ClosedException, b)
     \<and> MemoryLogBook_delitem b flow_name = (Inl ClosedException, b))
 \<and> (jb_closed jb \<longrightarrow>
       post jb utcnow job = (Inl ClosedException, jb)
     \<and> posted_before jb date_posted = (Inl ClosedException, jb)
     \<and> posted_after jb date_posted = (Inl ClosedException, jb)
     \<and> erase jb job = (Inl ClosedException, jb)
     \<and> await jb = (Inl ClosedException, jb))
 \<and> c_closed (MemoryCatalog_close c) \<and> lb_closed (MemoryLogBook_close b)
 \<and> jb_closed (MemoryJobBoard_close jb)
 \<and> MemoryCatalog_len c = (Inr (length (catalogs c)), c)
 \<and> MemoryLogBook_len b = (Inr (length (flows b)), b)"
  by (simp add: check_not_closed_def MemoryCatalog_create_or_fetch_def MemoryCatalog_erase_def
      MemoryLogBook_add_flow_def MemoryLogBook_getitem_def MemoryLogBook_iter_def
      MemoryLogBook_contains_def MemoryLogBook_delitem_def post_def posted_before_def
      posted_after_def erase_def await_def MemoryCatalog_close_def MemoryLogBook_close_def
      MemoryJobBoard_close_def MemoryCatalog_len_def MemoryLogBook_len_def)

theorem closed_rejects_witness:
  "MemoryCatalog_create_or_fetch closed_catalog some_job = (Inl ClosedException, closed_catalog)
 \<and> MemoryCatalog_erase closed_catalog some_job = (Inl ClosedException, closed_catalog)
 \<and> MemoryLogBook_add_flow closed_book ''undo'' = (Inl ClosedException, closed_book)
 \<and> MemoryLogBook_getitem closed_book ''deploy'' = (Inl ClosedException, closed_book)
 \<and> MemoryLogBook_delitem closed_book ''deploy'' = (Inl ClosedException, closed_book)
 \<and> post closed_board 5 some_job = (Inl ClosedException, closed_board)
 \<and> posted_before closed_board None = (Inl ClosedException, closed_board)
 \<and> erase closed_board some_job = (Inl ClosedException, closed_board)"
proof -
  have "c_closed closed_catalog" "lb_closed closed_book" "jb_closed closed_board"
    by (simp_all add: closed_catalog_def closed_book_def closed_board_def MemoryCatalog_close_def
        MemoryLogBook_close_def MemoryJobBoard_close_def)
  then show ?thesis
    using closed_rejects [of closed_catalog some_job closed_book _ closed_board] by simp
qed

text \<open>
  The claim as stated fails for the length of a closed catalog and of a closed log book,
  which is returned.
\<close>

theorem closed_counterexample:
  "fst (MemoryCatalog_len (MemoryCatalog_close (MemoryCatalog_init :: unit MemoryCatalog))) = Inr 0
 \<and> fst (MemoryLogBook_len (MemoryLogBook_close (MemoryLogBook_init :: unit MemoryLogBook))) = Inr 0"
  by (simp add: MemoryCatalog_len_def MemoryCatalog_close_def MemoryCatalog_init_def
      MemoryLogBook_len_def MemoryLogBook_close_def MemoryLogBook_init_def)

section \<open>Properties of the graph flow\<close>

lemma build_edges_iff:
  "(p, n, c) \<in> set (build_edges ts) \<longleftrightarrow>
     c < length ts \<and> n \<in> set (requires (ts ! c)) \<and> p < length ts \<and> n \<in> set (provides (ts ! p))"
  by (force simp: build_edges_def producers_of_def)

lemma before_in_append: "before_in acc p c \<Longrightarrow> before_in (acc @ fresh) p c"
  unfolding before_in_def by (metis length_append nth_append order_less_trans trans_less_add1)

lemma before_in_fresh:
  assumes "p \<in> set acc" "c \<in> set fresh"
  shows "before_in (acc @ fresh) p c"
proof -
  obtain i where i: "i < length acc" "acc ! i = p"
    using assms(1) by (auto simp: in_set_conv_nth)
  obtain k where k: "k < length fresh" "fresh ! k = c"
    using assms(2) by (auto simp: in_set_conv_nth)
  have "i < length acc + k" "length acc + k < length (acc @ fresh)"
    "(acc @ fresh) ! i = p" "(acc @ fresh) ! (length acc + k) = c"
    using i k by (simp_all add: nth_append)
  then show ?thesis unfolding before_in_def by blast
qed

lemma kahn_sound:
  assumes "kahn remaining es acc = Inr ord"
    and "distinct (acc @ remaining)"
    and "set es = {(p, n, c). (p, n, c) \<in> es0 \<and> p \<in> set remaining}"
    and "\<forall>p n c. (p, n, c) \<in> es0 \<longrightarrow> p \<in> set acc \<union> set remaining"
    and "\<forall>p n c. (p, n, c) \<in> es0 \<longrightarrow> c \<in> set acc \<longrightarrow> before_in acc p c"
  shows "distinct ord \<and> set ord = set acc \<union> set remaining
       \<and> (\<forall>p n c. (p, n, c) \<in> es0 \<longrightarrow> c \<in> set ord \<longrightarrow> before_in ord p c)"
  using assms
proof (induction remaining es acc rule: kahn.induct)
  case (1 remaining es acc)
  show ?case
  proof (cases "remaining = []")
    case True
    with "1.prems" show ?thesis by (simp add: kahn.simps)
  next
    case False
    let ?ready = "ready_tasks remaining es"
    let ?rem' = "[c \<leftarrow> remaining. c \<notin> set ?ready]"
    let ?es' = "[(p, n, c) \<leftarrow> es. p \<notin> set ?ready]"
    from False "1.prems"(1) have ne: "?ready \<noteq> []"
      by (auto simp: kahn.simps split: if_splits)
    with False "1.prems"(1) have rec: "kahn ?rem' ?es' (acc @ ?ready) = Inr ord"
      by (simp add: kahn.simps)
    have sub: "set ?ready \<subseteq> set remaining"
      by (auto simp: ready_tasks_def)
    have dr: "distinct ?ready"
      using "1.prems"(2) by (simp add: ready_tasks_def)
    have d': "distinct ((acc @ ?ready) @ ?rem')"
      using "1.prems"(2) sub dr by auto
    have e': "set ?es' = {(p, n, c). (p, n, c) \<in> es0 \<and> p \<in> set ?rem'}"
      using "1.prems"(3) sub by auto
    have n': "\<forall>p n c. (p, n, c) \<in> es0 \<longrightarrow> p \<in> set (acc @ ?ready) \<union> set ?rem'"
      using "1.prems"(4) by auto
    have b: "before_in (acc @ ?ready) p c"
      if edge: "(p, n, c) \<in> es0" and c: "c \<in> set (acc @ ?ready)" for p n c
    proof (cases "c \<in> set acc")
      case True
      with edge "1.prems"(5) have "before_in acc p c" by blast
      then show ?thesis by (rule before_in_append)
    next
      case False
      with c have cr: "c \<in> set ?ready" by simp
      then have "(p, n, c) \<notin> set es"
        by (auto simp: ready_tasks_def)
      with edge "1.prems"(3) have "p \<notin> set remaining" by auto
      with edge "1.prems"(4) have "p \<in> set acc" by auto
      then show ?thesis using cr by (rule before_in_fresh)
    qed
    then have b': "\<forall>p n c. (p, n, c) \<in> es0 \<longrightarrow> c \<in> set (acc @ ?ready) \<longrightarrow> before_in (acc @ ?ready) p c"
      by blast
    have "distinct ord \<and> set ord = set (acc @ ?ready) \<union> set ?rem'
       \<and> (\<forall>p n c. (p, n, c) \<in> es0 \<longrightarrow> c \<in> set ord \<longrightarrow> before_in ord p c)"
      using "1.IH" [OF False ne rec d' e' n' b'] .
    moreover have "set (acc @ ?ready) \<union> set ?rem' = set acc \<union> set remaining"
      using sub by auto
    ultimately show ?thesis by simp
  qed
qed

lemma kahn_nodes_topological:
  assumes "kahn [0..<N] es [] = Inr ord"
    and "\<And>p n c. (p, n, c) \<in> set es \<Longrightarrow> p < N \<and> c < N"
  shows "distinct ord \<and> set ord = {..<N} \<and> (\<forall>p n c. (p, n, c) \<in> set es \<longrightarrow> before_in ord p c)"
proof -
  have "distinct ord \<and> set ord = set [] \<union> set [0..<N]
       \<and> (\<forall>p n c. (p, n, c) \<in> set es \<longrightarrow> c \<in> set ord \<longrightarrow> before_in ord p c)"
  proof (rule kahn_sound [where es = es and ?es0.0 = "set es"])
    show "kahn [0..<N] es [] = Inr ord" by (rule assms(1))
    show "set es = {(p, n, c). (p, n, c) \<in> set es \<and> p \<in> set [0..<N]}"
      using assms(2) by auto
    show "\<forall>p n c. (p, n, c) \<in> set es \<longrightarrow> p \<in> set [] \<union> set [0..<N]"
      using assms(2) by auto
  qed simp_all
  then show ?thesis using assms(2) by (fastforce simp: lessThan_def)
qed

lemma kahn_error: "kahn remaining es acc = Inl e \<Longrightarrow> e = InvalidStateException"
  by (induction remaining es acc rule: kahn.induct) (subst (asm) kahn.simps, auto split: if_splits)

lemma connect_tasks_error: "connect_tasks ts asi = Inl e \<Longrightarrow> e = InvalidStateException"
  by (auto simp: connect_tasks_def Let_def split: if_splits sum.splits dest: kahn_error)

lemma connect_tasks_graph:
  "connect_tasks ts asi = Inr g \<Longrightarrow>
   nodes g = [0..<length ts] \<and> edges g = build_edges ts
   \<and> (\<exists>ord. kahn [0..<length ts] (build_edges ts) [] = Inr ord)"
  by (auto simp: connect_tasks_def Let_def split: if_splits sum.splits)

lemma Flow_order_error: "Flow_order f = Inl e \<Longrightarrow> e = InvalidStateException"
  by (auto simp: Flow_order_def Flow_connect_def order_graph_def split: sum.splits
      dest: connect_tasks_error kahn_error)

lemma Flow_connect_order:
  "Flow_connect f = Inl e \<Longrightarrow> Flow_order f = Inl e"
  by (simp add: Flow_order_def)

lemma Flow_order_sound:
  assumes "Flow_order f = Inr ord"
  shows "distinct ord \<and> set ord = {..<length (tasks f)}
       \<and> (\<forall>p n c. c < length (tasks f) \<and> n \<in> set (requires (tasks f ! c))
              \<and> p < length (tasks f) \<and> n \<in> set (provides (tasks f ! p))
            \<longrightarrow> before_in ord p c)"
proof -
  from assms obtain g where g: "Flow_connect f = Inr g" "order_graph g = Inr ord"
    by (auto simp: Flow_order_def split: sum.splits)
  then have "kahn [0..<length (tasks f)] (build_edges (tasks f)) [] = Inr ord"
    using connect_tasks_graph [of "tasks f" "allow_same_inputs f" g]
    by (simp add: Flow_connect_def order_graph_def)
  then have "distinct ord \<and> set ord = {..<length (tasks f)}
       \<and> (\<forall>p n c. (p, n, c) \<in> set (build_edges (tasks f)) \<longrightarrow> before_in ord p c)"
    by (rule kahn_nodes_topological) (simp add: build_edges_iff)
  then show ?thesis unfolding build_edges_iff by blast
qed

lemma run_tasks_tasks: "tasks (rr_flow (run_tasks f ctx pool invoked rest)) = tasks f"
  by (induction rest arbitrary: f ctx pool invoked) (auto simp: Let_def split: prod.splits sum.splits)

lemma run_tasks_shape:
  "\<exists>m \<le> length rest.
     map fst (results (rr_flow (run_tasks f ctx pool invoked rest))) = map fst (results f) @ take m rest
   \<and> rr_invoked (run_tasks f ctx pool invoked rest) =
       invoked @ take (if rr_raised (run_tasks f ctx pool invoked rest) = None then m else Suc m) rest
   \<and> (rr_raised (run_tasks f ctx pool invoked rest) = None \<longrightarrow> m = length rest)
   \<and> (rr_raised (run_tasks f ctx pool invoked rest) \<noteq> None \<longrightarrow> m < length rest)
   \<and> flow_state (rr_flow (run_tasks f ctx pool invoked rest)) =
       (if rr_raised (run_tasks f ctx pool invoked rest) = None then SUCCESS else FAILURE)"
proof (induction rest arbitrary: f ctx pool invoked)
  case Nil
  then show ?case by simp
next
  case (Cons i rest)
  let ?t = "tasks f ! i"
  let ?inputs = "resolve pool (requires ?t)"
  obtain res ctx' where ex: "execute ?t ctx ?inputs = (res, ctx')"
    by (cases "execute ?t ctx ?inputs")
  show ?case
  proof (cases res)
    case (Inl e)
    with ex show ?thesis
      by (intro exI [of _ 0]) (simp add: Let_def split: prod.splits)
  next
    case (Inr raw)
    let ?f' = "f\<lparr>results := results f @ [(i, \<lparr>raw_result = raw, resolved_inputs = ?inputs\<rparr>)]\<rparr>"
    let ?r = "run_tasks ?f' ctx' (pool @ merge_outputs ?t raw) (invoked @ [i]) rest"
    have eq: "run_tasks f ctx pool invoked (i # rest) = ?r"
      using ex Inr by (simp add: Let_def)
    from Cons.IH [of ?f' ctx' "pool @ merge_outputs ?t raw" "invoked @ [i]"]
    obtain m where m: "m \<le> length rest \<and>
      map fst (results (rr_flow ?r)) = map fst (results ?f') @ take m rest \<and>
      rr_invoked ?r = (invoked @ [i]) @ take (if rr_raised ?r = None then m else Suc m) rest \<and>
      (rr_raised ?r = None \<longrightarrow> m = length rest) \<and>
      (rr_raised ?r \<noteq> None \<longrightarrow> m < length rest) \<and>
      flow_state (rr_flow ?r) = (if rr_raised ?r = None then SUCCESS else FAILURE)"
      by (elim exE)
    show ?thesis
      unfolding eq
    proof (intro exI [of _ "Suc m"] conjI)
      show "Suc m \<le> length (i # rest)" using m by simp
      show "map fst (results (rr_flow ?r)) = map fst (results f) @ take (Suc m) (i # rest)"
        using m by simp
      show "rr_invoked ?r = invoked @ take (if rr_raised ?r = None then Suc m else Suc (Suc m)) (i # rest)"
        using m by simp
      show "rr_raised ?r = None \<longrightarrow> Suc m = length (i # rest)" using m by simp
      show "rr_raised ?r \<noteq> None \<longrightarrow> Suc m < length (i # rest)" using m by simp
      show "flow_state (rr_flow ?r) = (if rr_raised ?r = None then SUCCESS else FAILURE)"
        using m by blast
    qed
  qed
qed

lemma kahn_complete:
  assumes "acyclic R" and "\<forall>p n c. (p, n, c) \<in> set es0 \<longrightarrow> (p, c) \<in> R"
    and "set es = {(p, n, c). (p, n, c) \<in> set es0 \<and> p \<in> set remaining}"
  shows "\<exists>ord. kahn remaining es acc = Inr ord"
  using assms
proof (induction remaining es acc rule: kahn.induct)
  case (1 remaining es acc)
  let ?R = "{(p, c). \<exists>n. (p, n, c) \<in> set es0}"
  show ?case
  proof (cases "remaining = []")
    case True
    then show ?thesis by (simp add: kahn.simps)
  next
    case False
    let ?ready = "ready_tasks remaining es"
    have "?R \<subseteq> (\<lambda>(p, n, c). (p, c)) ` set es0" by force
    then have fin: "finite ?R" by (rule finite_subset) simp
    have "?R \<subseteq> R" using "1.prems"(2) by blast
    with "1.prems"(1) have "acyclic ?R" by (rule acyclic_subset)
    with fin have "wf ?R" by (rule finite_acyclic_wf)
    moreover from False obtain x where "x \<in> set remaining" by (cases remaining) auto
    ultimately obtain z where z: "z \<in> set remaining" "\<And>y. (y, z) \<in> ?R \<Longrightarrow> y \<notin> set remaining"
      by (rule wfE_min) blast
    have "z \<in> set ?ready"
      using z "1.prems"(3) by (fastforce simp: ready_tasks_def)
    then have ne: "?ready \<noteq> []" by auto
    have "set [(p, n, c) \<leftarrow> es. p \<notin> set ?ready] =
        {(p, n, c). (p, n, c) \<in> set es0 \<and> p \<in> set [c \<leftarrow> remaining. c \<notin> set ?ready]}"
      using "1.prems"(3) by auto
    from "1.IH" [OF False ne "1.prems"(1,2) this] show ?thesis
      using False ne by (subst kahn.simps) simp
  qed
qed

lemma build_edges_depends: "(p, n, c) \<in> set (build_edges ts) \<Longrightarrow> (p, c) \<in> depends_on ts"
  by (auto simp: build_edges_iff depends_on_def)

lemma producers_of_empty:
  "producers_of ts n = [] \<longleftrightarrow> (\<forall>p < length ts. n \<notin> set (provides (ts ! p)))"
  by (auto simp: producers_of_def filter_empty_conv)

lemma connect_tasks_valid:
  assumes "asi \<or> (\<forall>n. length (producers_of ts n) \<le> 1)"
    and "\<forall>c < length ts. \<forall>n \<in> set (requires (ts ! c)). \<exists>p < length ts. n \<in> set (provides (ts ! p))"
    and "acyclic (depends_on ts)"
  shows "\<exists>g. connect_tasks ts asi = Inr g"
proof -
  have 1: "\<not> (\<not> asi \<and> (\<exists>n \<in> set (provided_names ts). length (producers_of ts n) > 1))"
    using assms(1) by (auto simp: not_less)
  have 2: "\<not> (\<exists>c \<in> set [0..<length ts]. \<exists>n \<in> set (requires (ts ! c)). producers_of ts n = [])"
    using assms(2) by (auto simp: producers_of_empty)
  have "\<exists>ord. kahn [0..<length ts] (build_edges ts) [] = Inr ord"
    using assms(3) by (rule kahn_complete [where ?es0.0 = "build_edges ts"])
      (auto simp: build_edges_depends build_edges_iff)
  then obtain ord where "kahn [0..<length ts] (build_edges ts) [] = Inr ord" ..
  then show ?thesis
    using 1 2 by (simp add: connect_tasks_def Let_def)
qed

lemma connect_then_order:
  assumes "Flow_connect f = Inr g"
  shows "\<exists>ord. Flow_order f = Inr ord"
  using assms connect_tasks_graph [of "tasks f" "allow_same_inputs f" g]
  by (auto simp: Flow_order_def Flow_connect_def order_graph_def)

lemma run_tasks_all_succeed:
  assumes "\<forall>i \<in> set rest. \<forall>c inp. \<exists>raw c'. execute (tasks f ! i) c inp = (Inr raw, c')"
  shows "rr_raised (run_tasks f ctx pool invoked rest) = None"
  using assms
proof (induction rest arbitrary: f ctx pool invoked)
  case Nil
  then show ?case by simp
next
  case (Cons i rest)
  let ?inputs = "resolve pool (requires (tasks f ! i))"
  from Cons.prems obtain raw c' where ex: "execute (tasks f ! i) ctx ?inputs = (Inr raw, c')"
    by (meson list.set_intros(1))
  let ?f' = "f\<lparr>results := results f @ [(i, \<lparr>raw_result = raw, resolved_inputs = ?inputs\<rparr>)]\<rparr>"
  have "\<forall>i \<in> set rest. \<forall>c inp. \<exists>raw c'. execute (tasks ?f' ! i) c inp = (Inr raw, c')"
    using Cons.prems by simp
  from Cons.IH [OF this] show ?case
    using ex by (simp add: Let_def)
qed

lemma flow_of_eq:
  "flow_of name asi ts =
     \<lparr>f_name = name, flow_state = PENDING, allow_same_inputs = asi, tasks = ts, results = []\<rparr>"
proof -
  have "foldl (\<lambda>f t. snd (Flow_add f t)) f ts = f\<lparr>tasks := tasks f @ ts\<rparr>"
    if "flow_state f = PENDING" for f :: "'a flow"
    using that by (induction ts arbitrary: f) (simp_all add: Flow_add_def)
  then show ?thesis
    by (simp add: flow_of_def Flow_init_def)
qed

lemma Flow_run_invalid:
  assumes "Flow_order f = Inl e"
  shows "rr_raised (Flow_run f ctx) = Some InvalidStateException
       \<and> rr_invoked (Flow_run f ctx) = [] \<and> rr_reverted (Flow_run f ctx) = []
       \<and> rr_context (Flow_run f ctx) = ctx
       \<and> results (rr_flow (Flow_run f ctx)) = results f
       \<and> (flow_state f = PENDING \<longrightarrow> flow_state (rr_flow (Flow_run f ctx)) = FAILURE)"
  using assms Flow_order_error [OF assms] by (simp add: Flow_run_def)

lemma kahn_stuck:
  assumes "remaining \<noteq> []" and "\<forall>c \<in> set remaining. \<exists>p n. (p, n, c) \<in> set es"
  shows "kahn remaining es acc = Inl InvalidStateException"
proof -
  have "ready_tasks remaining es = []"
    using assms(2) by (fastforce simp: ready_tasks_def filter_empty_conv)
  with assms(1) show ?thesis by (subst kahn.simps) simp
qed

lemma connect_tasks_unresolved:
  assumes "c < length ts" and "n \<in> set (requires (ts ! c))"
    and "\<forall>p < length ts. n \<notin> set (provides (ts ! p))"
  shows "connect_tasks ts asi = Inl InvalidStateException"
proof -
  have "producers_of ts n = []" using assms(3) by (simp add: producers_of_empty)
  with assms(1,2) have "\<exists>c \<in> set [0..<length ts]. \<exists>n \<in> set (requires (ts ! c)). producers_of ts n = []"
    by auto
  then show ?thesis by (simp add: connect_tasks_def Let_def)
qed

text \<open>
  Claim C2. When some task of a flow requires a name that no task of the flow provides,
  \<open>Flow_connect\<close>, \<open>Flow_order\<close> and \<open>Flow_run\<close> each fail with
  \<open>InvalidStateException\<close>; \<open>Flow_run\<close> invokes no task, leaves \<open>results\<close> as they
  were (empty, for a flow that has not run) and takes a pending flow to \<open>FAILURE\<close>.
\<close>

theorem unresolved_requirement_rejected:
  assumes "c < length (tasks f)" and "n \<in> set (requires (tasks f ! c))"
    and "\<forall>p < length (tasks f). n \<notin> set (provides (tasks f ! p))"
  shows "Flow_connect f = Inl InvalidStateException
       \<and> Flow_order f = Inl InvalidStateException
       \<and> rr_raised (Flow_run f ctx) = Some InvalidStateException
       \<and> rr_invoked (Flow_run f ctx) = []
       \<and> results (rr_flow (Flow_run f ctx)) = results f
       \<and> (flow_state f = PENDING \<longrightarrow> flow_state (rr_flow (Flow_run f ctx)) = FAILURE)"
proof -
  have c: "Flow_connect f = Inl InvalidStateException"
    unfolding Flow_connect_def using assms by (rule connect_tasks_unresolved)
  then have o: "Flow_order f = Inl InvalidStateException" by (rule Flow_connect_order)
  show ?thesis using c o Flow_run_invalid [OF o, of ctx] by simp
qed

theorem unresolved_requirement_rejected_witness:
  "Flow_connect no_requires_provider = Inl InvalidStateException
 \<and> Flow_order no_requires_provider = Inl InvalidStateException
 \<and> rr_raised (Flow_run no_requires_provider []) = Some InvalidStateException
 \<and> rr_invoked (Flow_run no_requires_provider []) = []
 \<and> results (rr_flow (Flow_run no_requires_provider [])) = []
 \<and> flow_state no_requires_provider = PENDING
 \<and> flow_state (rr_flow (Flow_run no_requires_provider [])) = FAILURE"
  using unresolved_requirement_rejected [of 0 no_requires_provider "''c''" "[]"]
  by (simp add: no_requires_provider_def flow_of_eq ProvidesRequiresTask_def)

text \<open>
  Claim C5. For a flow of two tasks each of which requires a name the other provides,
  validation fails with \<open>InvalidStateException\<close>, and so do \<open>Flow_order\<close> and
  \<open>Flow_run\<close>; \<open>Flow_run\<close> invokes no task and takes the pending flow to \<open>FAILURE\<close>.
\<close>

theorem cycle_rejected:
  assumes "tasks f = [t1, t2]"
    and "a \<in> set (requires t1)" and "a \<in> set (provides t2)"
    and "b \<in> set (requires t2)" and "b \<in> set (provides t1)"
  shows "Flow_connect f = Inl InvalidStateException
       \<and> Flow_order f = Inl InvalidStateException
       \<and> rr_raised (Flow_run f ctx) = Some InvalidStateException
       \<and> rr_invoked (Flow_run f ctx) = []
       \<and> results (rr_flow (Flow_run f ctx)) = results f
       \<and> (flow_state f = PENDING \<longrightarrow> flow_state (rr_flow (Flow_run f ctx)) = FAILURE)"
proof -
  have "(1, a, 0) \<in> set (build_edges (tasks f))" "(0, b, 1) \<in> set (build_edges (tasks f))"
    using assms by (simp_all add: build_edges_iff)
  then have "\<forall>c \<in> set [0..<length (tasks f)]. \<exists>p n. (p, n, c) \<in> set (build_edges (tasks f))"
    using assms(1) by (auto simp: less_Suc_eq)
  then have "kahn [0..<length (tasks f)] (build_edges (tasks f)) [] = Inl InvalidStateException"
    using assms(1) by (intro kahn_stuck) auto
  then have c: "Flow_connect f = Inl InvalidStateException"
    by (simp add: Flow_connect_def connect_tasks_def Let_def)
  then have o: "Flow_order f = Inl InvalidStateException" by (rule Flow_connect_order)
  show ?thesis using c o Flow_run_invalid [OF o, of ctx] by simp
qed

theorem cycle_rejected_witness:
  "Flow_connect looping_flow = Inl InvalidStateException
 \<and> Flow_order looping_flow = Inl InvalidStateException
 \<and> rr_raised (Flow_run looping_flow []) = Some InvalidStateException
 \<and> rr_invoked (Flow_run looping_flow []) = []
 \<and> results (rr_flow (Flow_run looping_flow [])) = []
 \<and> flow_state looping_flow = PENDING
 \<and> flow_state (rr_flow (Flow_run looping_flow [])) = FAILURE"
  using cycle_rejected [of looping_flow "ProvidesRequiresTask ''test1'' [''a'', ''b''] [''c'', ''d'', ''e'']"
      "ProvidesRequiresTask ''test2'' [''c'', ''d'', ''e''] [''a'', ''b'']" "''c''" "''a''" "[]"]
  by (simp add: looping_flow_def flow_of_eq ProvidesRequiresTask_def)

lemma states_distinct:
  "PENDING \<noteq> RUNNING" "PENDING \<noteq> REVERTING" "PENDING \<noteq> SUCCESS" "PENDING \<noteq> FAILURE"
  "RUNNING \<noteq> REVERTING" "RUNNING \<noteq> SUCCESS" "RUNNING \<noteq> FAILURE"
  "REVERTING \<noteq> SUCCESS" "REVERTING \<noteq> FAILURE" "SUCCESS \<noteq> FAILURE"
  by (simp_all add: PENDING_def RUNNING_def REVERTING_def SUCCESS_def FAILURE_def)

text \<open>
  Claim C1. Take a pending flow of two tasks that runs them in the order first, second;
  the first returns \<open>{'a': 1}\<close> and the unit of work of the second raises \<open>e\<close>. Then
  \<open>Flow_run\<close> leaves the flow in \<open>FAILURE\<close>; the only compensation it invokes is that of
  the first task, once, on the context the second task left, with the result \<open>{'a': 1}\<close>
  and a cause that shows the flow in \<open>REVERTING\<close> and carries \<open>e\<close>; whatever
  compensation the second task declares is not invoked; and \<open>e\<close> is raised to the
  caller, with the context as the compensation left it.
\<close>

theorem revert_protocol:
  assumes "tasks f = [t1, t2]" and "flow_state f = PENDING" and "results f = []"
    and "Flow_order f = Inr [0, 1]"
    and "execute t1 ctx (resolve [] (requires t1)) = (Inr (DictV [(''a'', IntV 1)]), ctx1)"
    and "execute t2 ctx1 (resolve (merge_outputs t1 (DictV [(''a'', IntV 1)])) (requires t2)) = (Inl e, ctx2)"
    and "revert t1 = Some compensation"
  shows "flow_state (rr_flow (Flow_run f ctx)) = FAILURE
       \<and> rr_reverted (Flow_run f ctx) =
           [(0, DictV [(''a'', IntV 1)], \<lparr>cause_flow_state = REVERTING, cause_error = e\<rparr>)]
       \<and> rr_context (Flow_run f ctx) =
           snd (compensation ctx2 (DictV [(''a'', IntV 1)]) \<lparr>cause_flow_state = REVERTING, cause_error = e\<rparr>)
       \<and> rr_raised (Flow_run f ctx) = Some e
       \<and> rr_invoked (Flow_run f ctx) = [0, 1]
       \<and> map fst (results (rr_flow (Flow_run f ctx))) = [0]
       \<and> map (raw_result \<circ> snd) (results (rr_flow (Flow_run f ctx))) = [DictV [(''a'', IntV 1)]]"
  using assms by (simp add: Flow_run_def Let_def split: prod.splits)

theorem revert_protocol_witness:
  "flow_state reverting_flow = PENDING
 \<and> flow_state (rr_flow (Flow_run reverting_flow [])) = FAILURE
 \<and> rr_reverted (Flow_run reverting_flow []) =
      [(0, DictV [(''a'', IntV 1)], \<lparr>cause_flow_state = REVERTING, cause_error = Exception ''Dead''\<rparr>)]
 \<and> rr_context (Flow_run reverting_flow []) = [''run1'']
 \<and> rr_raised (Flow_run reverting_flow []) = Some (Exception ''Dead'')"
proof -
  let ?t1 = "\<lparr>tname = ''run1'', requires = [], provides = [''a''],
         execute = (\<lambda>context inputs. (Inr (DictV [(''a'', IntV 1)]), context)),
         revert = Some run1_revert\<rparr> :: string list task"
  let ?t2 = "\<lparr>tname = ''run2'', requires = [''a''], provides = [''c''],
         execute = (\<lambda>context inputs. (Inl (Exception ''Dead''), context)),
         revert = None\<rparr> :: string list task"
  have ord: "Flow_order reverting_flow = Inr [0, 1]"
    by (simp add: reverting_flow_def flow_of_eq Flow_order_def Flow_connect_def connect_tasks_def
        order_graph_def provided_names_def producers_of_def build_edges_def kahn.simps
        ready_tasks_def upt_rec Let_def)
  show ?thesis
    using revert_protocol [of reverting_flow ?t1 ?t2 "[]" "[]" "Exception ''Dead''" "[]" run1_revert, OF _ _ _ ord]
    by (simp add: reverting_flow_def flow_of_eq run1_revert_def)
qed

lemma take_topological:
  assumes "distinct ord" and "before_in ord p c" and "j < k" and "j < length ord" and "ord ! j = c"
  shows "\<exists>i < j. take k ord ! i = p"
proof -
  from assms(2) obtain i' j' where ij: "i' < j'" "j' < length ord" "ord ! i' = p" "ord ! j' = c"
    unfolding before_in_def by blast
  with assms(1,4,5) have "j' = j"
    by (metis nth_eq_iff_index_eq)
  with ij assms(3) have "i' < j" "take k ord ! i' = p" by simp_all
  then show ?thesis by blast
qed

lemma Flow_run_cases:
  "(rr_invoked (Flow_run f ctx) = [] \<and> rr_raised (Flow_run f ctx) \<noteq> None)
 \<or> (\<exists>ord k. Flow_order f = Inr ord \<and> flow_state f = PENDING
        \<and> rr_invoked (Flow_run f ctx) = take k ord
        \<and> (rr_raised (Flow_run f ctx) = None \<longrightarrow>
              length ord \<le> k \<and> flow_state (rr_flow (Flow_run f ctx)) = SUCCESS))"
proof (cases "flow_state f = PENDING")
  case False
  then show ?thesis by (simp add: Flow_run_def)
next
  case True
  show ?thesis
  proof (cases "Flow_order f")
    case (Inl e)
    with True show ?thesis by (simp add: Flow_run_def)
  next
    case (Inr ord)
    let ?r = "run_tasks (f\<lparr>flow_state := RUNNING\<rparr>) ctx [] [] ord"
    have r: "Flow_run f ctx = ?r"
      using True Inr by (simp add: Flow_run_def)
    obtain m where m: "m \<le> length ord \<and>
        map fst (results (rr_flow ?r)) = map fst (results (f\<lparr>flow_state := RUNNING\<rparr>)) @ take m ord \<and>
        rr_invoked ?r = [] @ take (if rr_raised ?r = None then m else Suc m) ord \<and>
        (rr_raised ?r = None \<longrightarrow> m = length ord) \<and>
        (rr_raised ?r \<noteq> None \<longrightarrow> m < length ord) \<and>
        flow_state (rr_flow ?r) = (if rr_raised ?r = None then SUCCESS else FAILURE)"
      using run_tasks_shape [of ord "f\<lparr>flow_state := RUNNING\<rparr>" ctx "[]" "[]"] by (elim exE)
    define k where "k = (if rr_raised ?r = None then m else Suc m)"
    have 1: "rr_invoked (Flow_run f ctx) = take k ord"
      using m by (simp add: r k_def)
    have 2: "rr_raised (Flow_run f ctx) = None \<longrightarrow>
        length ord \<le> k \<and> flow_state (rr_flow (Flow_run f ctx)) = SUCCESS"
      using m by (simp add: r k_def)
    show ?thesis
      using Inr True 1 2 by (intro disjI2 exI [of _ ord] exI [of _ k]) simp
  qed
qed

lemma run_topological:
  "distinct (rr_invoked (Flow_run f ctx))
 \<and> set (rr_invoked (Flow_run f ctx)) \<subseteq> {..<length (tasks f)}
 \<and> (\<forall>j < length (rr_invoked (Flow_run f ctx)). \<forall>p n.
        p < length (tasks f) \<and> n \<in> set (provides (tasks f ! p))
        \<and> n \<in> set (requires (tasks f ! (rr_invoked (Flow_run f ctx) ! j)))
      \<longrightarrow> (\<exists>i < j. rr_invoked (Flow_run f ctx) ! i = p))
 \<and> (rr_raised (Flow_run f ctx) = None \<longrightarrow>
        set (rr_invoked (Flow_run f ctx)) = {..<length (tasks f)}
      \<and> flow_state (rr_flow (Flow_run f ctx)) = SUCCESS)"
proof -
  let ?inv = "rr_invoked (Flow_run f ctx)"
  from Flow_run_cases [of f ctx] show ?thesis
  proof (elim disjE exE conjE)
    assume "?inv = []" "rr_raised (Flow_run f ctx) \<noteq> None"
    then show ?thesis by auto
  next
    fix ord k
    assume ord: "Flow_order f = Inr ord" and inv: "?inv = take k ord"
      and ok: "rr_raised (Flow_run f ctx) = None \<longrightarrow>
                 length ord \<le> k \<and> flow_state (rr_flow (Flow_run f ctx)) = SUCCESS"
    note snd = Flow_order_sound [OF ord]
    have d: "distinct ?inv" using snd inv by simp
    have s: "set ?inv \<subseteq> {..<length (tasks f)}"
      using snd inv set_take_subset [of k ord] by auto
    have t: "\<exists>i < j. ?inv ! i = p"
      if j: "j < length ?inv" and p: "p < length (tasks f)" "n \<in> set (provides (tasks f ! p))"
        "n \<in> set (requires (tasks f ! (?inv ! j)))" for j p n
    proof -
      have jk: "j < k" "j < length ord" using j inv by simp_all
      then have c: "?inv ! j = ord ! j" using inv by simp
      then have "ord ! j < length (tasks f)" using snd jk(2) nth_mem [of j ord] by auto
      with p c snd have "before_in ord p (ord ! j)" by auto
      with snd jk have "\<exists>i < j. take k ord ! i = p" by (intro take_topological) auto
      then show ?thesis using inv by simp
    qed
    have e: "rr_raised (Flow_run f ctx) = None \<longrightarrow>
        set ?inv = {..<length (tasks f)} \<and> flow_state (rr_flow (Flow_run f ctx)) = SUCCESS"
      using ok inv snd by auto
    show ?thesis using d s t e by blast
  qed
qed

lemma filter_at_most_one:
  "distinct xs \<Longrightarrow> (\<forall>x \<in> set xs. \<forall>y \<in> set xs. P x \<longrightarrow> P y \<longrightarrow> x = y) \<Longrightarrow> length (filter P xs) \<le> 1"
proof (induction xs)
  case Nil
  then show ?case by simp
next
  case (Cons x xs)
  show ?case
  proof (cases "P x")
    case True
    with Cons.prems have "filter P xs = []"
      by (auto simp: filter_empty_conv)
    with True show ?thesis by simp
  next
    case False
    with Cons show ?thesis by simp
  qed
qed

lemma Flow_run_succeeds:
  assumes "Flow_order f = Inr ord" and "flow_state f = PENDING"
    and "\<forall>t \<in> set (tasks f). always_succeeds t"
  shows "rr_raised (Flow_run f ctx) = None \<and> flow_state (rr_flow (Flow_run f ctx)) = SUCCESS
       \<and> rr_invoked (Flow_run f ctx) = ord"
proof -
  let ?f = "f\<lparr>flow_state := RUNNING\<rparr>"
  have r: "Flow_run f ctx = run_tasks ?f ctx [] [] ord"
    using assms(1,2) by (simp add: Flow_run_def)
  have "set ord = {..<length (tasks f)}"
    using Flow_order_sound [OF assms(1)] by simp
  then have "\<forall>i \<in> set ord. \<forall>c inp. \<exists>raw c'. execute (tasks ?f ! i) c inp = (Inr raw, c')"
    using assms(3) by (simp add: always_succeeds_def)
  then have none: "rr_raised (run_tasks ?f ctx [] [] ord) = None"
    by (rule run_tasks_all_succeed)
  obtain m where m: "m \<le> length ord \<and>
        map fst (results (rr_flow (run_tasks ?f ctx [] [] ord))) = map fst (results ?f) @ take m ord \<and>
        rr_invoked (run_tasks ?f ctx [] [] ord) =
          [] @ take (if rr_raised (run_tasks ?f ctx [] [] ord) = None then m else Suc m) ord \<and>
        (rr_raised (run_tasks ?f ctx [] [] ord) = None \<longrightarrow> m = length ord) \<and>
        (rr_raised (run_tasks ?f ctx [] [] ord) \<noteq> None \<longrightarrow> m < length ord) \<and>
        flow_state (rr_flow (run_tasks ?f ctx [] [] ord)) =
          (if rr_raised (run_tasks ?f ctx [] [] ord) = None then SUCCESS else FAILURE)"
    using run_tasks_shape [of ord ?f ctx "[]" "[]"] by (elim exE)
  show ?thesis
    using none m by (simp add: r)
qed

lemma four_task_run:
  fixes f :: "'c flow"
  assumes perm: "mset (tasks f) = mset [r1, r2, r3, r4]"
    and d1: "declares r1 ''run1'' [] [''a'']"
    and d2: "declares r2 ''run2'' [''a''] [''c'']"
    and d3: "declares r3 ''run3'' [''a''] [''b'']"
    and d4: "declares r4 ''run4'' [''b'', ''c''] []"
    and ok: "\<forall>t \<in> set (tasks f). always_succeeds t"
    and pend: "flow_state f = PENDING"
  shows "rr_raised (Flow_run f ctx) = None \<and> flow_state (rr_flow (Flow_run f ctx)) = SUCCESS
       \<and> map (\<lambda>i. tname (tasks f ! i)) (rr_invoked (Flow_run f ctx))
           \<in> {[''run1'', ''run2'', ''run3'', ''run4''], [''run1'', ''run3'', ''run2'', ''run4'']}"
proof -
  let ?ts = "tasks f"
  have set_ts: "set ?ts = {r1, r2, r3, r4}"
    using mset_eq_setD [OF perm] by simp
  have len: "length ?ts = 4"
    using mset_eq_length [OF perm] by simp
  have "distinct [r1, r2, r3, r4]"
    using d1 d2 d3 d4 by (auto simp: declares_def)
  then have dist: "distinct ?ts"
    using mset_eq_imp_distinct_iff [OF perm] by simp
  have prov: "(n = ''a'' \<and> t = r1) \<or> (n = ''c'' \<and> t = r2) \<or> (n = ''b'' \<and> t = r3)"
    if "t \<in> set ?ts" "n \<in> set (provides t)" for t n
    using that d1 d2 d3 d4 by (auto simp: set_ts declares_def)
  have req: "(n = ''a'' \<and> (t = r2 \<or> t = r3)) \<or> ((n = ''b'' \<or> n = ''c'') \<and> t = r4)"
    if "t \<in> set ?ts" "n \<in> set (requires t)" for t n
    using that d1 d2 d3 d4 by (auto simp: set_ts declares_def)
  have idx: "\<exists>i < length ?ts. ?ts ! i = t" if "t \<in> set ?ts" for t
    using that by (simp add: in_set_conv_nth)
  have one: "\<forall>n. length (producers_of ?ts n) \<le> 1"
  proof
    fix n
    have "\<forall>x \<in> set [0..<length ?ts]. \<forall>y \<in> set [0..<length ?ts].
        n \<in> set (provides (?ts ! x)) \<longrightarrow> n \<in> set (provides (?ts ! y)) \<longrightarrow> x = y"
    proof (intro ballI impI)
      fix x y assume xy: "x \<in> set [0..<length ?ts]" "y \<in> set [0..<length ?ts]"
        and px: "n \<in> set (provides (?ts ! x))" and py: "n \<in> set (provides (?ts ! y))"
      then have "?ts ! x \<in> set ?ts" "?ts ! y \<in> set ?ts" by simp_all
      with px py have "?ts ! x = ?ts ! y"
        using prov [of "?ts ! x" n] prov [of "?ts ! y" n] by auto
      with dist xy show "x = y" by (simp add: nth_eq_iff_index_eq)
    qed
    then show "length (producers_of ?ts n) \<le> 1"
      unfolding producers_of_def by (intro filter_at_most_one) simp_all
  qed
  have res: "\<forall>c < length ?ts. \<forall>n \<in> set (requires (?ts ! c)). \<exists>p < length ?ts. n \<in> set (provides (?ts ! p))"
  proof (intro allI impI ballI)
    fix c n assume c: "c < length ?ts" and n: "n \<in> set (requires (?ts ! c))"
    then have "n = ''a'' \<or> n = ''b'' \<or> n = ''c''"
      using req [of "?ts ! c" n] by auto
    moreover have "''a'' \<in> set (provides r1)" "''c'' \<in> set (provides r2)" "''b'' \<in> set (provides r3)"
      using d1 d2 d3 by (simp_all add: declares_def)
    ultimately show "\<exists>p < length ?ts. n \<in> set (provides (?ts ! p))"
      using idx [of r1] idx [of r2] idx [of r3] by (auto simp: set_ts)
  qed
  have acyc: "acyclic (depends_on ?ts)"
  proof (rule acyclicI_order [where f = "\<lambda>i. 2 - length (requires (?ts ! i))"])
    fix p c assume "(p, c) \<in> depends_on ?ts"
    then obtain n where pc: "p < length ?ts" "c < length ?ts" "n \<in> set (provides (?ts ! p))"
      "n \<in> set (requires (?ts ! c))"
      by (auto simp: depends_on_def)
    then have "?ts ! p \<in> set ?ts" "?ts ! c \<in> set ?ts" by simp_all
    with pc show "2 - length (requires (?ts ! c)) < 2 - length (requires (?ts ! p))"
      using prov [of "?ts ! p" n] req [of "?ts ! c" n] d1 d2 d3 d4 by (auto simp: declares_def)
  qed
  obtain g where "connect_tasks ?ts (allow_same_inputs f) = Inr g"
    using connect_tasks_valid [of "allow_same_inputs f" ?ts] one res acyc by blast
  then obtain ord where ord: "Flow_order f = Inr ord"
    using connect_then_order [of f g] by (auto simp: Flow_connect_def)
  note run = Flow_run_succeeds [OF ord pend ok, of ctx]
  note snd = Flow_order_sound [OF ord]
  have lord: "length ord = 4"
    using snd len distinct_card [of ord] by simp
  have bounds: "\<And>k. k < 4 \<Longrightarrow> ord ! k < length ?ts"
    using snd lord nth_mem [of _ ord] by auto
  have first: "?ts ! (ord ! 0) = r1"
  proof (rule ccontr)
    assume "?ts ! (ord ! 0) \<noteq> r1"
    moreover have mem: "?ts ! (ord ! 0) \<in> set ?ts" using bounds [of 0] by simp
    ultimately have "requires (?ts ! (ord ! 0)) \<noteq> []"
      using d2 d3 d4 by (auto simp: set_ts declares_def)
    then obtain n where n: "n \<in> set (requires (?ts ! (ord ! 0)))"
      by (cases "requires (?ts ! (ord ! 0))") auto
    then obtain p where "p < length ?ts" "n \<in> set (provides (?ts ! p))"
      using res bounds [of 0] by auto
    with n bounds [of 0] snd have "before_in ord p (ord ! 0)" by auto
    then obtain i j where "i < j" "j < length ord" "ord ! j = ord ! 0"
      unfolding before_in_def by blast
    then show False
      using snd lord by (simp add: nth_eq_iff_index_eq)
  qed
  have last: "?ts ! (ord ! 3) = r4"
  proof (rule ccontr)
    assume "?ts ! (ord ! 3) \<noteq> r4"
    moreover have mem: "?ts ! (ord ! 3) \<in> set ?ts" using bounds [of 3] by simp
    ultimately have "provides (?ts ! (ord ! 3)) \<noteq> []"
      using d1 d2 d3 by (auto simp: set_ts declares_def)
    then obtain n where n: "n \<in> set (provides (?ts ! (ord ! 3)))"
      by (cases "provides (?ts ! (ord ! 3))") auto
    with mem have "n = ''a'' \<or> n = ''b'' \<or> n = ''c''"
      using prov [of "?ts ! (ord ! 3)" n] by auto
    moreover have "''a'' \<in> set (requires r2)" "''b'' \<in> set (requires r4)" "''c'' \<in> set (requires r4)"
      using d2 d4 by (simp_all add: declares_def)
    ultimately obtain c where "c < length ?ts" "n \<in> set (requires (?ts ! c))"
      using idx [of r2] idx [of r4] by (auto simp: set_ts)
    with n bounds [of 3] snd have "before_in ord (ord ! 3) c" by auto
    then obtain i j where "i < j" "j < length ord" "ord ! i = ord ! 3"
      unfolding before_in_def by blast
    then show False
      using snd lord by (simp add: nth_eq_iff_index_eq)
  qed
  have ord4: "ord = [ord ! 0, ord ! 1, ord ! 2, ord ! 3]"
    using lord by (auto simp: list_eq_iff_nth_eq less_Suc_eq numeral_eq_Suc)
  have "set ord = set [0..<length ?ts]" "distinct ord"
    using snd by auto
  then have "mset ord = mset [0..<length ?ts]"
    by (metis distinct_upt set_eq_iff_mset_eq_distinct)
  then have "mset (map ((!) ?ts) ord) = mset (map ((!) ?ts) [0..<length ?ts])"
    by (metis mset_map)
  then have "mset (map ((!) ?ts) ord) = mset [r1, r2, r3, r4]"
    using perm by (simp add: map_nth)
  then have "mset [?ts ! (ord ! 0), ?ts ! (ord ! 1), ?ts ! (ord ! 2), ?ts ! (ord ! 3)] = mset [r1, r2, r3, r4]"
    by (subst (asm) ord4) simp
  then have "mset [?ts ! (ord ! 1), ?ts ! (ord ! 2)] = mset [r2, r3]"
    using first last by (simp add: add_mset_commute)
  then have mid: "(?ts ! (ord ! 1) = r2 \<and> ?ts ! (ord ! 2) = r3) \<or> (?ts ! (ord ! 1) = r3 \<and> ?ts ! (ord ! 2) = r2)"
    by (auto simp: add_eq_conv_ex)
  have "map (\<lambda>i. tname (?ts ! i)) ord
      = [tname (?ts ! (ord ! 0)), tname (?ts ! (ord ! 1)), tname (?ts ! (ord ! 2)), tname (?ts ! (ord ! 3))]"
    by (subst ord4) simp
  then have "map (\<lambda>i. tname (?ts ! i)) ord
      \<in> {[''run1'', ''run2'', ''run3'', ''run4''], [''run1'', ''run3'', ''run2'', ''run4'']}"
    using first last mid d1 d2 d3 d4 by (auto simp: declares_def)
  then show ?thesis using run by simp
qed

text \<open>
  Claim C4. In every run, each task is invoked at most once and only after every producer
  of each name it requires has been invoked; a run that raises nothing has invoked every
  task of the flow and ends in \<open>SUCCESS\<close>. For the four tasks \<open>run1\<close> (provides
  \<open>a\<close>), \<open>run2\<close> (requires \<open>a\<close>, provides \<open>c\<close>), \<open>run3\<close> (requires \<open>a\<close>,
  provides \<open>b\<close>) and \<open>run4\<close> (requires \<open>b\<close> and \<open>c\<close>), added in any order and none
  of them raising, the run invokes each once, \<open>run1\<close> first and \<open>run4\<close> last, with
  \<open>run2\<close> and \<open>run3\<close> in either order between them.
\<close>

theorem run_order_topological:
  fixes f :: "'c flow"
  shows "distinct (rr_invoked (Flow_run f ctx))
 \<and> set (rr_invoked (Flow_run f ctx)) \<subseteq> {..<length (tasks f)}
 \<and> (\<forall>j < length (rr_invoked (Flow_run f ctx)). \<forall>p n.
        p < length (tasks f) \<and> n \<in> set (provides (tasks f ! p))
        \<and> n \<in> set (requires (tasks f ! (rr_invoked (Flow_run f ctx) ! j)))
      \<longrightarrow> (\<exists>i < j. rr_invoked (Flow_run f ctx) ! i = p))
 \<and> (rr_raised (Flow_run f ctx) = None \<longrightarrow>
        set (rr_invoked (Flow_run f ctx)) = {..<length (tasks f)}
      \<and> flow_state (rr_flow (Flow_run f ctx)) = SUCCESS)
 \<and> (mset (tasks f) = mset [r1, r2, r3, r4]
      \<and> declares r1 ''run1'' [] [''a''] \<and> declares r2 ''run2'' [''a''] [''c'']
      \<and> declares r3 ''run3'' [''a''] [''b''] \<and> declares r4 ''run4'' [''b'', ''c''] []
      \<and> (\<forall>t \<in> set (tasks f). always_succeeds t) \<and> flow_state f = PENDING
    \<longrightarrow> rr_raised (Flow_run f ctx) = None \<and> flow_state (rr_flow (Flow_run f ctx)) = SUCCESS
      \<and> map (\<lambda>i. tname (tasks f ! i)) (rr_invoked (Flow_run f ctx))
           \<in> {[''run1'', ''run2'', ''run3'', ''run4''], [''run1'', ''run3'', ''run2'', ''run4'']})"
  using run_topological [of f ctx] four_task_run [of f r1 r2 r3 r4 ctx] by blast

text \<open>
  Both orders of \<open>run2\<close> and \<open>run3\<close> occur: the flow of the test runs them as added,
  the flow with the tasks added in reverse runs \<open>run3\<close> before \<open>run2\<close>.
\<close>

lemma happy_flow_run:
  "rr_invoked (Flow_run happy_flow []) = [0, 1, 2, 3]
 \<and> rr_context (Flow_run happy_flow []) = [''ran1'', ''ran2'', ''ran3'', ''ran4'']
 \<and> map (resolved_inputs \<circ> snd) (results (rr_flow (Flow_run happy_flow [])))
      = [[], [(''a'', IntV 1)], [(''a'', IntV 1)], [(''b'', IntV 2), (''c'', IntV 3)]]"
  by (simp add: happy_flow_def flow_of_eq happy_run1_def happy_run2_def happy_run3_def
      happy_run4_def happy_task_def Flow_run_def Flow_order_def Flow_connect_def connect_tasks_def
      order_graph_def provided_names_def producers_of_def build_edges_def kahn.simps
      ready_tasks_def upt_rec Let_def resolve_def collected_def merge_outputs_def output_for_def)

lemma happy_flow_reversed_run:
  "rr_invoked (Flow_run happy_flow_reversed []) = [3, 1, 2, 0]
 \<and> rr_context (Flow_run happy_flow_reversed []) = [''ran1'', ''ran3'', ''ran2'', ''ran4'']"
  by (simp add: happy_flow_reversed_def flow_of_eq happy_run1_def happy_run2_def happy_run3_def
      happy_run4_def happy_task_def Flow_run_def Flow_order_def Flow_connect_def connect_tasks_def
      order_graph_def provided_names_def producers_of_def build_edges_def kahn.simps
      ready_tasks_def upt_rec Let_def resolve_def collected_def merge_outputs_def output_for_def)

theorem run_order_topological_witness:
  "flow_state (rr_flow (Flow_run happy_flow [])) = SUCCESS
 \<and> map (\<lambda>i. tname (tasks happy_flow ! i)) (rr_invoked (Flow_run happy_flow []))
      = [''run1'', ''run2'', ''run3'', ''run4'']
 \<and> rr_context (Flow_run happy_flow []) = [''ran1'', ''ran2'', ''ran3'', ''ran4'']
 \<and> flow_state (rr_flow (Flow_run happy_flow_reversed [])) = SUCCESS
 \<and> map (\<lambda>i. tname (tasks happy_flow_reversed ! i)) (rr_invoked (Flow_run happy_flow_reversed []))
      = [''run1'', ''run3'', ''run2'', ''run4'']
 \<and> rr_context (Flow_run happy_flow_reversed []) = [''ran1'', ''ran3'', ''ran2'', ''ran4'']"
proof -
  have d: "declares happy_run1 ''run1'' [] [''a'']" "declares happy_run2 ''run2'' [''a''] [''c'']"
    "declares happy_run3 ''run3'' [''a''] [''b'']" "declares happy_run4 ''run4'' [''b'', ''c''] []"
    by (simp_all add: declares_def happy_run1_def happy_run2_def happy_run3_def happy_run4_def
        happy_task_def)
  have s: "always_succeeds happy_run1" "always_succeeds happy_run2" "always_succeeds happy_run3"
    "always_succeeds happy_run4"
    by (simp_all add: always_succeeds_def happy_run1_def happy_run2_def happy_run3_def
        happy_run4_def happy_task_def)
  have t: "tasks happy_flow = [happy_run1, happy_run2, happy_run3, happy_run4]"
    "tasks happy_flow_reversed = [happy_run4, happy_run3, happy_run2, happy_run1]"
    "flow_state happy_flow = PENDING" "flow_state happy_flow_reversed = PENDING"
    by (simp_all add: happy_flow_def happy_flow_reversed_def flow_of_eq)
  have n: "tname happy_run1 = ''run1''" "tname happy_run2 = ''run2''" "tname happy_run3 = ''run3''"
    "tname happy_run4 = ''run4''"
    using d by (simp_all add: declares_def)
  show ?thesis
    using run_order_topological [of happy_flow "[]" happy_run1 happy_run2 happy_run3 happy_run4]
      run_order_topological [of happy_flow_reversed "[]" happy_run1 happy_run2 happy_run3 happy_run4]
      happy_flow_run happy_flow_reversed_run
    by (simp add: d s t n)
qed

lemma collected_append: "collected (xs @ ys) n = collected xs n @ collected ys n"
  by (simp add: collected_def)

lemma collected_keyed:
  "distinct xs \<Longrightarrow> collected (map (\<lambda>m. (m, g m)) xs) n = (if n \<in> set xs then [g n] else [])"
  by (induction xs) (auto simp: collected_def)

lemma collected_merge:
  "collected (merge_outputs t raw) n = (if n \<in> set (provides t) then [output_for raw n] else [])"
  using collected_keyed [of "remdups (provides t)" "output_for raw" n]
  by (simp add: merge_outputs_def)

lemma collected_pool_of: "collected (pool_of ts rs) n = supplied ts rs n"
proof (induction rs)
  case Nil
  then show ?case by (simp add: pool_of_def supplied_def collected_def)
next
  case (Cons r rs)
  have "pool_of ts (r # rs) = merge_outputs (ts ! fst r) (raw_result (snd r)) @ pool_of ts rs"
    by (simp add: pool_of_def split_beta)
  moreover have "supplied ts (r # rs) n =
      collected (merge_outputs (ts ! fst r) (raw_result (snd r))) n @ supplied ts rs n"
    by (simp add: supplied_def collected_merge)
  ultimately show ?case using Cons.IH by (simp add: collected_append)
qed

lemma supplied_append: "supplied ts (xs @ ys) n = supplied ts xs n @ supplied ts ys n"
  by (simp add: supplied_def)

lemma supplied_none:
  "\<forall>x \<in> set rs. n \<notin> set (provides (ts ! fst x)) \<Longrightarrow> supplied ts rs n = []"
  by (induction rs) (auto simp: supplied_def)

lemma map_of_keyed:
  assumes "distinct xs" and "n \<in> set xs"
  shows "map_of (concat (map (\<lambda>m. map (Pair m) (g m)) xs)) n =
           (case g n of [] \<Rightarrow> None | v # _ \<Rightarrow> Some v)"
  using assms
proof (induction xs)
  case Nil
  then show ?case by simp
next
  case (Cons x xs)
  have miss: "map_of (map (Pair x) (g x)) n = None" if "x \<noteq> n"
    using that by (auto simp: map_of_eq_None_iff)
  have hit: "map_of (map (Pair n) (g n)) n = (case g n of [] \<Rightarrow> None | v # _ \<Rightarrow> Some v)"
    by (cases "g n") simp_all
  have rest: "map_of (concat (map (\<lambda>m. map (Pair m) (g m)) xs)) n = None" if "n \<notin> set xs"
    using that by (auto simp: map_of_eq_None_iff)
  show ?case
  proof (cases "x = n")
    case True
    with Cons.prems rest hit show ?thesis
      by (auto simp: map_add_def split: option.splits list.splits)
  next
    case False
    with Cons miss show ?thesis by (simp add: map_add_def)
  qed
qed

lemma map_of_resolve:
  assumes "n \<in> set reqs"
  shows "map_of (resolve pool reqs) n = fan_in (collected pool n)"
  using assms
    map_of_keyed [of "remdups reqs" n "\<lambda>n. case fan_in (collected pool n) of None \<Rightarrow> [] | Some v \<Rightarrow> [v]"]
  by (simp add: resolve_def split: option.splits)

lemma inputs_ok_snoc:
  assumes "inputs_ok ts rs" and "resolved_inputs out = resolve (pool_of ts rs) (requires (ts ! i))"
  shows "inputs_ok ts (rs @ [(i, out)])"
  unfolding inputs_ok_def
proof (intro allI impI)
  fix k assume "k < length (rs @ [(i, out)])"
  then consider "k < length rs" | "k = length rs" by fastforce
  then show "resolved_inputs (snd ((rs @ [(i, out)]) ! k)) =
         resolve (pool_of ts (take k (rs @ [(i, out)]))) (requires (ts ! fst ((rs @ [(i, out)]) ! k)))"
  proof cases
    case 1
    with assms(1) show ?thesis by (simp add: inputs_ok_def nth_append)
  next
    case 2
    with assms(2) show ?thesis by simp
  qed
qed

lemma run_tasks_inputs:
  assumes "pool = pool_of (tasks f) (results f)" and "inputs_ok (tasks f) (results f)"
  shows "inputs_ok (tasks f) (results (rr_flow (run_tasks f ctx pool invoked rest)))"
  using assms
proof (induction rest arbitrary: f ctx pool invoked)
  case Nil
  then show ?case by simp
next
  case (Cons i rest)
  let ?t = "tasks f ! i"
  let ?inputs = "resolve pool (requires ?t)"
  obtain res ctx' where ex: "execute ?t ctx ?inputs = (res, ctx')"
    by (cases "execute ?t ctx ?inputs")
  show ?case
  proof (cases res)
    case (Inl e)
    with ex Cons.prems show ?thesis
      by (simp add: Let_def split: prod.splits)
  next
    case (Inr raw)
    let ?out = "\<lparr>raw_result = raw, resolved_inputs = ?inputs\<rparr>"
    let ?f' = "f\<lparr>results := results f @ [(i, ?out)]\<rparr>"
    have eq: "run_tasks f ctx pool invoked (i # rest) =
        run_tasks ?f' ctx' (pool @ merge_outputs ?t raw) (invoked @ [i]) rest"
      using ex Inr by (simp add: Let_def)
    have p: "pool @ merge_outputs ?t raw = pool_of (tasks ?f') (results ?f')"
      using Cons.prems(1) by (simp add: pool_of_def)
    have "inputs_ok (tasks f) (results f @ [(i, ?out)])"
      using Cons.prems by (intro inputs_ok_snoc) simp_all
    then have "inputs_ok (tasks ?f') (results ?f')" by simp
    from Cons.IH [OF p this] show ?thesis
      unfolding eq by simp
  qed
qed

lemma connect_tasks_ambiguous:
  assumes "\<not> asi" and "i < length ts" and "j < length ts" and "i \<noteq> j"
    and "n \<in> set (provides (ts ! i))" and "n \<in> set (provides (ts ! j))"
  shows "connect_tasks ts asi = Inl InvalidStateException"
proof -
  have "{i, j} \<subseteq> set (producers_of ts n)"
    using assms by (simp add: producers_of_def)
  then have "card {i, j} \<le> card (set (producers_of ts n))"
    by (intro card_mono) simp_all
  moreover have "distinct (producers_of ts n)"
    by (simp add: producers_of_def)
  ultimately have "1 < length (producers_of ts n)"
    using assms(4) by (simp add: distinct_card)
  moreover have "n \<in> set (provided_names ts)"
    using assms(2,5) by (auto simp: provided_names_def)
  ultimately show ?thesis
    using assms(1) by (auto simp: connect_tasks_def Let_def)
qed

lemma fan_in_cases:
  "(vs = [v] \<longrightarrow> fan_in vs = Some v) \<and> (1 < length vs \<longrightarrow> fan_in vs = Some (ListV vs))"
  by (cases vs rule: fan_in.cases) simp_all

lemma run_fan_in:
  assumes "results f = []"
    and "j < length (results (rr_flow (Flow_run f ctx)))"
    and "n \<in> set (requires (tasks f ! fst (results (rr_flow (Flow_run f ctx)) ! j)))"
  shows "map_of (resolved_inputs (snd (results (rr_flow (Flow_run f ctx)) ! j))) n
           = fan_in (supplied (tasks f) (results (rr_flow (Flow_run f ctx))) n)
       \<and> (\<forall>p < length (tasks f). n \<in> set (provides (tasks f ! p)) \<longrightarrow>
             (\<exists>i < j. fst (results (rr_flow (Flow_run f ctx)) ! i) = p))
       \<and> length (supplied (tasks f) (results (rr_flow (Flow_run f ctx))) n)
           = length (producers_of (tasks f) n)"
proof -
  let ?ts = "tasks f"
  let ?rs = "results (rr_flow (Flow_run f ctx))"
  have pend: "flow_state f = PENDING"
    using assms(1,2) by (auto simp: Flow_run_def split: if_splits)
  then obtain ord where ord: "Flow_order f = Inr ord"
    using assms(1,2) by (cases "Flow_order f") (auto simp: Flow_run_def)
  let ?f = "f\<lparr>flow_state := RUNNING\<rparr>"
  have r: "Flow_run f ctx = run_tasks ?f ctx [] [] ord"
    using pend ord by (simp add: Flow_run_def)
  note snd = Flow_order_sound [OF ord]
  obtain m where m: "m \<le> length ord \<and>
        map fst (results (rr_flow (run_tasks ?f ctx [] [] ord))) = map fst (results ?f) @ take m ord \<and>
        rr_invoked (run_tasks ?f ctx [] [] ord) =
          [] @ take (if rr_raised (run_tasks ?f ctx [] [] ord) = None then m else Suc m) ord \<and>
        (rr_raised (run_tasks ?f ctx [] [] ord) = None \<longrightarrow> m = length ord) \<and>
        (rr_raised (run_tasks ?f ctx [] [] ord) \<noteq> None \<longrightarrow> m < length ord) \<and>
        flow_state (rr_flow (run_tasks ?f ctx [] [] ord)) =
          (if rr_raised (run_tasks ?f ctx [] [] ord) = None then SUCCESS else FAILURE)"
    using run_tasks_shape [of ord ?f ctx "[]" "[]"] by (elim exE)
  have fsts: "map fst ?rs = take m ord"
    using m assms(1) by (simp add: r)
  then have len: "length ?rs = m" "m \<le> length ord"
    using m length_map [of fst ?rs] by simp_all
  have nth: "fst (?rs ! k) = ord ! k" if "k < m" for k
    using that fsts len nth_map [of k ?rs fst] by simp
  have ok: "inputs_ok ?ts ?rs"
    using run_tasks_inputs [of "[]" ?f ctx "[]" ord] assms(1)
    by (simp add: r pool_of_def inputs_ok_def)
  let ?c = "fst (?rs ! j)"
  have jm: "j < m" using assms(2) len by simp
  have c: "?c = ord ! j" using nth jm by simp
  have cb: "?c < length ?ts"
    using snd c jm len nth_mem [of j ord] by auto
  have producers: "\<exists>i < j. fst (?rs ! i) = p"
    if "p < length ?ts" "n \<in> set (provides (?ts ! p))" for p
  proof -
    have "before_in ord p (ord ! j)"
      using snd that cb assms(3) c by auto
    with snd jm len obtain i where "i < j" "take m ord ! i = p"
      using take_topological [of ord p "ord ! j" j m] by auto
    with jm nth [of i] show ?thesis by auto
  qed
  have later: "\<forall>x \<in> set (drop j ?rs). n \<notin> set (provides (?ts ! fst x))"
  proof
    fix x assume "x \<in> set (drop j ?rs)"
    then obtain i where "i < length (drop j ?rs)" "x = drop j ?rs ! i"
      by (auto simp: in_set_conv_nth)
    then have "j \<le> j + i" "j + i < length ?rs" "x = ?rs ! (j + i)"
      by simp_all
    then obtain k where k: "j \<le> k" "k < length ?rs" "x = ?rs ! k"
      by blast
    show "n \<notin> set (provides (?ts ! fst x))"
    proof
      assume "n \<in> set (provides (?ts ! fst x))"
      moreover have "fst x < length ?ts"
        using k len snd nth [of k] nth_mem [of k ord] by auto
      ultimately obtain i where i: "i < j" "fst (?rs ! i) = fst x"
        using producers by blast
      then have "ord ! i = ord ! k"
        using k len nth [of i] nth [of k] jm by simp
      then show False
        using snd i k len by (simp add: nth_eq_iff_index_eq)
    qed
  qed
  have "supplied ?ts ?rs n = supplied ?ts (take j ?rs) n @ supplied ?ts (drop j ?rs) n"
    using supplied_append [of ?ts "take j ?rs" "drop j ?rs" n] by simp
  then have "supplied ?ts ?rs n = collected (pool_of ?ts (take j ?rs)) n"
    using supplied_none [OF later] by (simp add: collected_pool_of)
  moreover have "resolved_inputs (snd (?rs ! j)) = resolve (pool_of ?ts (take j ?rs)) (requires (?ts ! ?c))"
    using ok assms(2) by (simp add: inputs_ok_def)
  ultimately have received: "map_of (resolved_inputs (snd (?rs ! j))) n = fan_in (supplied ?ts ?rs n)"
    using map_of_resolve [OF assms(3)] by simp
  let ?P = "\<lambda>p. n \<in> set (provides (?ts ! p))"
  have "length (supplied ?ts ?rs n) = length (filter ?P (map fst ?rs))"
    by (simp add: supplied_def filter_map comp_def)
  also have "\<dots> = card (set (filter ?P (take m ord)))"
  proof -
    have "distinct (filter ?P (take m ord))" using snd by simp
    then show ?thesis unfolding fsts by (rule distinct_card [symmetric])
  qed
  also have "set (filter ?P (take m ord)) = set (producers_of ?ts n)"
  proof (intro equalityI subsetI)
    fix p assume "p \<in> set (filter ?P (take m ord))"
    then have "p \<in> set ord" "?P p" using set_take_subset [of m ord] by auto
    then show "p \<in> set (producers_of ?ts n)"
      using snd by (simp add: producers_of_def)
  next
    fix p assume "p \<in> set (producers_of ?ts n)"
    then have p: "p < length ?ts" "?P p" by (simp_all add: producers_of_def)
    then obtain i where "i < j" "fst (?rs ! i) = p" using producers by blast
    then have "take m ord ! i = p" "i < length (take m ord)"
      using jm nth [of i] len by simp_all
    then have "p \<in> set (take m ord)" using nth_mem by blast
    with p show "p \<in> set (filter ?P (take m ord))" by simp
  qed
  also have "card (set (producers_of ?ts n)) = length (producers_of ?ts n)"
  proof -
    have "distinct (producers_of ?ts n)" by (simp add: producers_of_def)
    then show ?thesis by (rule distinct_card)
  qed
  finally have "length (supplied ?ts ?rs n) = length (producers_of ?ts n)" .
  with received producers show ?thesis by blast
qed

text \<open>
  Claim C3. Take a pending flow in which two tasks provide the same name \<open>n\<close>. With
  \<open>allow_same_inputs\<close> false, validation fails with \<open>InvalidStateException\<close>, and
  \<open>Flow_run\<close> invokes nothing and ends in \<open>FAILURE\<close>. With \<open>allow_same_inputs\<close> true, the
  same graph validates, provided it has no other defect: every required name has a
  producer and the dependencies have no cycle. In its run, for every completed task and
  every name \<open>m\<close> it requires, all producers of \<open>m\<close> completed before the task; the values
  \<open>vs\<close> they supplied for \<open>m\<close>, in completion order, are as many as \<open>m\<close> has producers; the
  task was passed the single value when there is one, and the list \<open>vs\<close> when there are
  more, as there are for \<open>n\<close>.
\<close>

theorem same_inputs_gate:
  fixes f :: "'c flow"
  assumes "i < length (tasks f)" and "j < length (tasks f)" and "i \<noteq> j"
    and "n \<in> set (provides (tasks f ! i))" and "n \<in> set (provides (tasks f ! j))"
    and "flow_state f = PENDING" and "results f = []"
  shows "Flow_connect (f\<lparr>allow_same_inputs := False\<rparr>) = Inl InvalidStateException
     \<and> rr_raised (Flow_run (f\<lparr>allow_same_inputs := False\<rparr>) ctx) = Some InvalidStateException
     \<and> rr_invoked (Flow_run (f\<lparr>allow_same_inputs := False\<rparr>) ctx) = []
     \<and> flow_state (rr_flow (Flow_run (f\<lparr>allow_same_inputs := False\<rparr>) ctx)) = FAILURE
     \<and> ((\<forall>c < length (tasks f). \<forall>m \<in> set (requires (tasks f ! c)).
             \<exists>p < length (tasks f). m \<in> set (provides (tasks f ! p)))
          \<and> acyclic (depends_on (tasks f))
        \<longrightarrow> (\<exists>g. Flow_connect (f\<lparr>allow_same_inputs := True\<rparr>) = Inr g)
          \<and> (\<exists>ord. Flow_order (f\<lparr>allow_same_inputs := True\<rparr>) = Inr ord))
     \<and> 1 < length (producers_of (tasks f) n)
     \<and> (let rs = results (rr_flow (Flow_run (f\<lparr>allow_same_inputs := True\<rparr>) ctx))
        in \<forall>k < length rs. \<forall>m \<in> set (requires (tasks f ! fst (rs ! k))).
             let vs = map (\<lambda>x. output_for (raw_result (snd x)) m)
                        [x \<leftarrow> rs. m \<in> set (provides (tasks f ! fst x))]
             in (\<forall>p < length (tasks f). m \<in> set (provides (tasks f ! p)) \<longrightarrow>
                   (\<exists>i < k. fst (rs ! i) = p))
              \<and> length vs = length (producers_of (tasks f) m)
              \<and> (\<forall>v. vs = [v] \<longrightarrow> map_of (resolved_inputs (snd (rs ! k))) m = Some v)
              \<and> (1 < length vs \<longrightarrow> map_of (resolved_inputs (snd (rs ! k))) m = Some (ListV vs)))"
proof -
  let ?f0 = "f\<lparr>allow_same_inputs := False\<rparr>" and ?f1 = "f\<lparr>allow_same_inputs := True\<rparr>"
  have c: "Flow_connect ?f0 = Inl InvalidStateException"
    unfolding Flow_connect_def using assms(1-5)
    by (intro connect_tasks_ambiguous [of _ i _ j n]) simp_all
  then have o: "Flow_order ?f0 = Inl InvalidStateException" by (rule Flow_connect_order)
  have run0: "rr_raised (Flow_run ?f0 ctx) = Some InvalidStateException"
    "rr_invoked (Flow_run ?f0 ctx) = []"
    "flow_state (rr_flow (Flow_run ?f0 ctx)) = FAILURE"
    using Flow_run_invalid [OF o, of ctx] assms(6) by simp_all
  have valid: "(\<exists>g. Flow_connect ?f1 = Inr g) \<and> (\<exists>ord. Flow_order ?f1 = Inr ord)"
    if "(\<forall>c < length (tasks f). \<forall>m \<in> set (requires (tasks f ! c)).
             \<exists>p < length (tasks f). m \<in> set (provides (tasks f ! p)))
          \<and> acyclic (depends_on (tasks f))"
  proof -
    from that obtain g where g: "Flow_connect ?f1 = Inr g"
      using connect_tasks_valid [of True "tasks f"] by (auto simp: Flow_connect_def)
    then show ?thesis using connect_then_order [OF g] by blast
  qed
  have "{i, j} \<subseteq> set (producers_of (tasks f) n)"
    using assms(1-5) by (simp add: producers_of_def)
  then have "card {i, j} \<le> card (set (producers_of (tasks f) n))"
    by (intro card_mono) simp_all
  moreover have "distinct (producers_of (tasks f) n)"
    by (simp add: producers_of_def)
  ultimately have two: "1 < length (producers_of (tasks f) n)"
    using assms(3) by (simp add: distinct_card)
  let ?rs = "results (rr_flow (Flow_run ?f1 ctx))"
  have fan: "(\<forall>p < length (tasks f). m \<in> set (provides (tasks f ! p)) \<longrightarrow> (\<exists>i < k. fst (?rs ! i) = p))
      \<and> length (supplied (tasks f) ?rs m) = length (producers_of (tasks f) m)
      \<and> (\<forall>v. supplied (tasks f) ?rs m = [v] \<longrightarrow> map_of (resolved_inputs (snd (?rs ! k))) m = Some v)
      \<and> (1 < length (supplied (tasks f) ?rs m) \<longrightarrow>
            map_of (resolved_inputs (snd (?rs ! k))) m = Some (ListV (supplied (tasks f) ?rs m)))"
    if "k < length ?rs" "m \<in> set (requires (tasks f ! fst (?rs ! k)))" for k m
    using run_fan_in [of ?f1 k ctx m] that assms(7)
      fan_in_cases [of "supplied (tasks f) ?rs m"]
    by simp
  show ?thesis
    using c run0 valid two fan by (simp add: Let_def supplied_def)
qed

lemma completion_order_run:
  "results (rr_flow (Flow_run completion_order_flow [])) =
     [(1, \<lparr>raw_result = DictV [(''y'', IntV 2), (''z'', IntV 0)], resolved_inputs = []\<rparr>),
      (0, \<lparr>raw_result = DictV [(''y'', IntV 1)], resolved_inputs = [(''z'', IntV 0)]\<rparr>),
      (2, \<lparr>raw_result = NoneV,
          resolved_inputs = [(''y'', ListV [IntV 2, IntV 1]), (''z'', IntV 0)]\<rparr>)]
 \<and> rr_context (Flow_run completion_order_flow []) = [''early'', ''late'', ''consumer'']
 \<and> rr_raised (Flow_run completion_order_flow []) = None"
  by (simp add: completion_order_flow_def flow_of_eq value_task_def Flow_run_def
      Flow_order_def Flow_connect_def connect_tasks_def order_graph_def provided_names_def
      producers_of_def build_edges_def kahn.simps ready_tasks_def upt_rec Let_def resolve_def
      collected_def merge_outputs_def output_for_def)

lemma multi_provider_allowed_run:
  "rr_raised (Flow_run multi_provider_allowed []) = None
 \<and> rr_context (Flow_run multi_provider_allowed []) = [''test6'', ''test7'', ''test8'']
 \<and> map fst (results (rr_flow (Flow_run multi_provider_allowed []))) = [0, 1, 2]
 \<and> map (resolved_inputs \<circ> snd) (results (rr_flow (Flow_run multi_provider_allowed [])))
      = [[], [(''z'', BoolV True)], [(''y'', ListV [BoolV True, BoolV True]), (''z'', BoolV True)]]"
  by (simp add: multi_provider_allowed_def flow_of_eq ProvidesRequiresTask_def Flow_run_def
      Flow_order_def Flow_connect_def connect_tasks_def order_graph_def provided_names_def
      producers_of_def build_edges_def kahn.simps ready_tasks_def upt_rec Let_def resolve_def
      collected_def merge_outputs_def output_for_def)

theorem same_inputs_gate_witness:
  "Flow_connect (completion_order_flow\<lparr>allow_same_inputs := False\<rparr>) = Inl InvalidStateException
 \<and> flow_state (rr_flow (Flow_run (completion_order_flow\<lparr>allow_same_inputs := False\<rparr>) [])) = FAILURE
 \<and> (\<exists>g. Flow_connect completion_order_flow = Inr g)
 \<and> rr_context (Flow_run completion_order_flow []) = [''early'', ''late'', ''consumer'']
 \<and> map_of (resolved_inputs (snd (results (rr_flow (Flow_run completion_order_flow [])) ! 2))) ''y''
      = Some (ListV [IntV 2, IntV 1])
 \<and> map_of (resolved_inputs (snd (results (rr_flow (Flow_run completion_order_flow [])) ! 2))) ''z''
      = Some (IntV 0)
 \<and> Flow_connect multi_provider_disallowed = Inl InvalidStateException
 \<and> flow_state (rr_flow (Flow_run multi_provider_disallowed [])) = FAILURE
 \<and> map_of (resolved_inputs (snd (results (rr_flow (Flow_run multi_provider_allowed [])) ! 2))) ''y''
      = Some (ListV [BoolV True, BoolV True])"
proof -
  let ?f = completion_order_flow and ?d = multi_provider_disallowed
  let ?rs = "results (rr_flow (Flow_run ?f []))"
  have t: "tasks ?f = [value_task ''late'' [''z''] [''y''] (DictV [(''y'', IntV 1)]),
        value_task ''early'' [] [''y'', ''z''] (DictV [(''y'', IntV 2), (''z'', IntV 0)]),
        value_task ''consumer'' [''y'', ''z''] [] NoneV]"
    "flow_state ?f = PENDING" "results ?f = []" "?f\<lparr>allow_same_inputs := True\<rparr> = ?f"
    by (simp_all add: completion_order_flow_def flow_of_eq)
  have two: "0 < length (tasks ?f)" "1 < length (tasks ?f)" "(0::nat) \<noteq> 1"
    "''y'' \<in> set (provides (tasks ?f ! 0))" "''y'' \<in> set (provides (tasks ?f ! 1))"
    by (simp_all add: t value_task_def)
  note gate = same_inputs_gate [OF two t(2,3), of "[]", unfolded t(4)]
  have res: "\<forall>c < length (tasks ?f). \<forall>m \<in> set (requires (tasks ?f ! c)).
      \<exists>p < length (tasks ?f). m \<in> set (provides (tasks ?f ! p))"
    by (auto simp: t value_task_def less_Suc_eq numeral_eq_Suc nth_Cons split: nat.splits)
  have acyc: "acyclic (depends_on (tasks ?f))"
  proof (rule acyclicI_order [where f = "\<lambda>i. length (provides (tasks ?f ! i))"])
    fix p c assume "(p, c) \<in> depends_on (tasks ?f)"
    then show "length (provides (tasks ?f ! c)) < length (provides (tasks ?f ! p))"
      by (auto simp: depends_on_def t value_task_def less_Suc_eq numeral_eq_Suc nth_Cons
          split: nat.splits)
  qed
  from gate res acyc have A: "Flow_connect (?f\<lparr>allow_same_inputs := False\<rparr>) = Inl InvalidStateException"
    "flow_state (rr_flow (Flow_run (?f\<lparr>allow_same_inputs := False\<rparr>) [])) = FAILURE"
    "\<exists>g. Flow_connect ?f = Inr g"
    by blast+
  have td: "tasks ?d = [ProvidesRequiresTask ''test6'' [''y''] [],
        ProvidesRequiresTask ''test7'' [''y''] [], ProvidesRequiresTask ''test8'' [] [''y'']]"
    "flow_state ?d = PENDING" "results ?d = []" "?d\<lparr>allow_same_inputs := False\<rparr> = ?d"
    by (simp_all add: multi_provider_disallowed_def flow_of_eq)
  have twod: "0 < length (tasks ?d)" "1 < length (tasks ?d)" "(0::nat) \<noteq> 1"
    "''y'' \<in> set (provides (tasks ?d ! 0))" "''y'' \<in> set (provides (tasks ?d ! 1))"
    by (simp_all add: td ProvidesRequiresTask_def)
  from same_inputs_gate [OF twod td(2,3), of "[]", unfolded td(4)]
  have D: "Flow_connect ?d = Inl InvalidStateException"
    "flow_state (rr_flow (Flow_run ?d [])) = FAILURE"
    by blast+
  have len: "length (results (rr_flow (Flow_run multi_provider_allowed []))) = 3"
    using multi_provider_allowed_run
      length_map [of fst "results (rr_flow (Flow_run multi_provider_allowed []))"] by simp
  have M: "resolved_inputs (snd (results (rr_flow (Flow_run multi_provider_allowed [])) ! 2))
      = [(''y'', ListV [BoolV True, BoolV True]), (''z'', BoolV True)]"
    using multi_provider_allowed_run len
      nth_map [of 2 "results (rr_flow (Flow_run multi_provider_allowed []))" "resolved_inputs \<circ> snd"]
    by simp
  show ?thesis
    using A D M completion_order_run by simp
qed

end
